theory Spec2Isabelle
  imports Complex_Main "HOL-Library.AList"
begin

section \<open>Strings\<close>

text \<open>
  The receipt backend is TypeScript. Its strings are modelled as \<open>string\<close>, a list of
  8-bit characters read as the code units 0 to 255 (Latin-1). Digits are \<open>0-9\<close>. White
  space is tab, line feed, vertical tab, form feed, carriage return, space and the
  no-break space \<open>0xA0\<close>; these are the code units below 256 that \<open>trim\<close> strips and
  \<open>\s\<close> matches. Upper-case letters are \<open>A-Z\<close> and the code units \<open>0xC0\<close> to \<open>0xDE\<close>
  without the multiplication sign \<open>0xD7\<close>; \<open>toLowerCase\<close> adds 32 to each. Texts with
  code units from 256 upwards are outside the model.
\<close>

definition upperCaseChars :: string where
  "upperCaseChars =
     ''ABCDEFGHIJKLMNOPQRSTUVWXYZ'' @
     [CHR 0xC0, CHR 0xC1, CHR 0xC2, CHR 0xC3, CHR 0xC4, CHR 0xC5, CHR 0xC6, CHR 0xC7,
      CHR 0xC8, CHR 0xC9, CHR 0xCA, CHR 0xCB, CHR 0xCC, CHR 0xCD, CHR 0xCE, CHR 0xCF,
      CHR 0xD0, CHR 0xD1, CHR 0xD2, CHR 0xD3, CHR 0xD4, CHR 0xD5, CHR 0xD6,
      CHR 0xD8, CHR 0xD9, CHR 0xDA, CHR 0xDB, CHR 0xDC, CHR 0xDD, CHR 0xDE]"

definition lowerCaseChars :: string where
  "lowerCaseChars =
     ''abcdefghijklmnopqrstuvwxyz'' @
     [CHR 0xE0, CHR 0xE1, CHR 0xE2, CHR 0xE3, CHR 0xE4, CHR 0xE5, CHR 0xE6, CHR 0xE7,
      CHR 0xE8, CHR 0xE9, CHR 0xEA, CHR 0xEB, CHR 0xEC, CHR 0xED, CHR 0xEE, CHR 0xEF,
      CHR 0xF0, CHR 0xF1, CHR 0xF2, CHR 0xF3, CHR 0xF4, CHR 0xF5, CHR 0xF6,
      CHR 0xF8, CHR 0xF9, CHR 0xFA, CHR 0xFB, CHR 0xFC, CHR 0xFD, CHR 0xFE]"

definition toLowerChar :: "char \<Rightarrow> char" where
  "toLowerChar c =
     (case map_of (zip upperCaseChars lowerCaseChars) c of
        Some l \<Rightarrow> l
      | None \<Rightarrow> c)"

definition toLowerCase :: "string \<Rightarrow> string" where
  "toLowerCase s = map toLowerChar s"

fun startsWith :: "string \<Rightarrow> string \<Rightarrow> bool" where
  "startsWith s [] = True"
| "startsWith [] (p # ps) = False"
| "startsWith (c # cs) (p # ps) = (c = p \<and> startsWith cs ps)"

text \<open>\<open>s.includes(p)\<close>: \<open>p\<close> occurs in \<open>s\<close> as a contiguous substring.\<close>

fun includes_str :: "string \<Rightarrow> string \<Rightarrow> bool" where
  "includes_str [] p = (p = [])"
| "includes_str (c # cs) p = (startsWith (c # cs) p \<or> includes_str cs p)"

text \<open>\<open>xs.join(sep)\<close>\<close>

fun join :: "string \<Rightarrow> string list \<Rightarrow> string" where
  "join sep [] = []"
| "join sep [x] = x"
| "join sep (x # y # ys) = x @ sep @ join sep (y # ys)"

definition isDigit :: "char \<Rightarrow> bool" where
  "isDigit c = (c \<in> set ''0123456789'')"

definition isSpace :: "char \<Rightarrow> bool" where
  "isSpace c =
     (c \<in> set [CHR 0x09, CHR 0x0A, CHR 0x0B, CHR 0x0C, CHR 0x0D, CHR '' '', CHR 0xA0])"

definition isLineTerminator :: "char \<Rightarrow> bool" where
  "isLineTerminator c = (c = CHR 0x0A \<or> c = CHR 0x0D)"

text \<open>\<open>s.trim()\<close> removes white space (line terminators included) at both ends.\<close>

definition trim :: "string \<Rightarrow> string" where
  "trim s = rev (dropWhile isSpace (rev (dropWhile isSpace s)))"

text \<open>\<open>s.split(sep)\<close> for a one-character separator; the result always has a first piece.\<close>

fun split :: "char \<Rightarrow> string \<Rightarrow> string list" where
  "split sep [] = [[]]"
| "split sep (c # cs) =
     (if c = sep then [] # split sep cs
      else (case split sep cs of
              l # ls \<Rightarrow> (c # l) # ls
            | [] \<Rightarrow> [[c]]))"


section \<open>Numbers\<close>

text \<open>
  A JavaScript number is modelled by its exact value: \<open>Num q\<close> for a rational \<open>q\<close>,
  \<open>NaN\<close>, and \<open>NegInfinity\<close> (the value of \<open>Math.max()\<close> without arguments). Rounding to
  IEEE doubles is not modelled, so digit strings too long or too small for a double
  (overflow to infinity, underflow to zero) are outside the model.
\<close>

datatype number = NaN | NegInfinity | Num rat

definition digitVal :: "char \<Rightarrow> int" where
  "digitVal c =
     (case map_of (zip ''0123456789'' [0, 1, 2, 3, 4, 5, 6, 7, 8, 9]) c of
        Some d \<Rightarrow> d
      | None \<Rightarrow> 0)"

definition digitsVal :: "string \<Rightarrow> int" where
  "digitsVal s = foldl (\<lambda>acc c. 10 * acc + digitVal c) 0 s"

text \<open>
  \<open>parseFloat\<close> reads the longest prefix \<open>digits\<close>, \<open>digits.digits\<close>, \<open>digits.\<close> or
  \<open>.digits\<close> and yields \<open>NaN\<close> when that prefix has no digit. The parser only applies it
  to regex captures made of digits and dots, so signs, exponents and leading white space,
  which the built-in function also accepts, do not occur and are not modelled.
\<close>

definition parseFloat :: "string \<Rightarrow> number" where
  "parseFloat s =
     (let ip = takeWhile isDigit s;
          r = dropWhile isDigit s;
          fp = (case r of
                  [] \<Rightarrow> []
                | c # r' \<Rightarrow> if c = CHR ''.'' then takeWhile isDigit r' else [])
      in if ip = [] \<and> fp = [] then NaN
         else Num (of_int (digitsVal (ip @ fp)) / 10 ^ length fp))"

text \<open>\<open>a > b\<close> on numbers: false as soon as one side is \<open>NaN\<close>.\<close>

fun gt :: "number \<Rightarrow> number \<Rightarrow> bool" where
  "gt (Num a) (Num b) = (a > b)"
| "gt (Num a) NegInfinity = True"
| "gt _ _ = False"

fun max2 :: "number \<Rightarrow> number \<Rightarrow> number" where
  "max2 NaN _ = NaN"
| "max2 _ NaN = NaN"
| "max2 NegInfinity b = b"
| "max2 a NegInfinity = a"
| "max2 (Num a) (Num b) = Num (max a b)"

text \<open>\<open>Math.max(...xs)\<close>\<close>

definition Math_max :: "number list \<Rightarrow> number" where
  "Math_max xs = foldl max2 NegInfinity xs"


section \<open>Categorization scorer\<close>

record Item =
  name :: string
  price :: number

text \<open>\<open>CategorizationInput\<close>; the optional members are \<open>None\<close> when undefined.\<close>

record CategorizationInput =
  input_merchantName :: string
  input_items :: "Item list option"
  input_description :: "string option"

text \<open>
  \<open>CATEGORY_KEYWORDS\<close> is an object literal; \<open>Object.entries\<close> lists its members in
  declaration order (no key is an integer index), hence an association list.
\<close>

definition CATEGORY_KEYWORDS :: "(string \<times> string list) list" where
  "CATEGORY_KEYWORDS = [
    (''Food & Dining'', [
      ''restaurant'', ''cafe'', ''coffee'', ''pizza'', ''burger'', ''sushi'', ''food'', ''deli'',
      ''bakery'', ''bar'', ''pub'', ''grill'', ''bistro'', ''kitchen'', ''dining'', ''eatery'',
      ''takeout'', ''delivery'', ''mcdonalds'', ''starbucks'', ''subway'', ''kfc'', ''dominos'',
      ''pizza hut'', ''taco bell'', ''grocery'', ''supermarket'', ''walmart'', ''target'',
      ''kroger'', ''safeway'', ''whole foods'']),
    (''Transportation'', [
      ''gas'', ''fuel'', ''petrol'', ''shell'', ''bp'', ''exxon'', ''chevron'', ''uber'', ''lyft'',
      ''taxi'', ''bus'', ''train'', ''subway'', ''metro'', ''parking'', ''toll'', ''airline'',
      ''flight'', ''airport'']),
    (''Shopping'', [
      ''amazon'', ''ebay'', ''store'', ''shop'', ''retail'', ''mall'', ''department'', ''clothing'',
      ''fashion'', ''shoes'', ''electronics'', ''best buy'', ''apple store'', ''nike'', ''adidas'']),
    (''Entertainment'', [
      ''movie'', ''cinema'', ''theater'', ''concert'', ''tickets'', ''game'', ''sports'',
      ''netflix'', ''spotify'', ''music'', ''entertainment'', ''amusement'', ''park'', ''zoo'',
      ''museum'']),
    (''Healthcare'', [
      ''hospital'', ''clinic'', ''doctor'', ''medical'', ''pharmacy'', ''cvs'', ''walgreens'',
      ''prescription'', ''dental'', ''vision'', ''health'', ''medicine'', ''drug'', ''therapy'',
      ''treatment'']),
    (''Travel'', [
      ''hotel'', ''motel'', ''resort'', ''booking'', ''expedia'', ''airbnb'', ''rental car'',
      ''hertz'', ''avis'', ''enterprise'', ''travel'', ''vacation'', ''trip'', ''tourism'']),
    (''Utilities'', [
      ''electric'', ''electricity'', ''gas'', ''water'', ''internet'', ''phone'', ''cable'',
      ''utilities'', ''bill'', ''service'', ''att'', ''verizon'', ''comcast'', ''power'', ''energy'']),
    (''Education'', [
      ''school'', ''university'', ''college'', ''tuition'', ''books'', ''education'', ''learning'',
      ''course'', ''class'', ''training'', ''certification'', ''academic'']),
    (''Business'', [
      ''office'', ''supplies'', ''business'', ''professional'', ''consulting'', ''services'',
      ''meeting'', ''conference'', ''equipment'', ''software'', ''subscription'']),
    (''Personal Care'', [
      ''salon'', ''spa'', ''beauty'', ''barber'', ''hair'', ''nails'', ''cosmetics'', ''skincare'',
      ''personal care'', ''hygiene'', ''grooming'', ''wellness'']),
    (''Home & Garden'', [
      ''home depot'', ''lowes'', ''furniture'', ''garden'', ''hardware'', ''tools'',
      ''home improvement'', ''decoration'', ''appliances'', ''ikea'', ''bed bath beyond'']),
    (''Insurance'', [
      ''insurance'', ''policy'', ''premium'', ''coverage'', ''claim'', ''deductible'', ''allstate'',
      ''state farm'', ''geico'', ''progressive'']),
    (''Investments'', [
      ''investment'', ''stock'', ''bond'', ''mutual fund'', ''retirement'', ''401k'', ''ira'',
      ''brokerage'', ''trading'', ''dividend'']),
    (''Gifts & Donations'', [
      ''gift'', ''donation'', ''charity'', ''nonprofit'', ''giving'', ''present'', ''contribution'',
      ''fundraiser'', ''support''])]"

text \<open>
  The lower-cased text searched for keywords:
  \<open>[merchantName, description || '', ...(items?.map(item => item.name) || [])].join(' ').toLowerCase()\<close>
\<close>

definition haystack :: "CategorizationInput \<Rightarrow> string" where
  "haystack input =
     toLowerCase (join '' ''
       ([input_merchantName input,
         (case input_description input of None \<Rightarrow> [] | Some d \<Rightarrow> d)]
        @ (case input_items input of None \<Rightarrow> [] | Some its \<Rightarrow> map name its)))"

text \<open>The body of the inner loop over the keywords of one category.\<close>

definition keywordStep :: "string \<Rightarrow> CategorizationInput \<Rightarrow> string \<Rightarrow> nat \<Rightarrow> nat" where
  "keywordStep text input keyword score =
     (if includes_str text (toLowerCase keyword)
      then (if includes_str (toLowerCase (input_merchantName input)) (toLowerCase keyword)
            then score + 3
            else score + 1)
      else score)"

definition categoryScore :: "string \<Rightarrow> CategorizationInput \<Rightarrow> string list \<Rightarrow> nat" where
  "categoryScore text input keywords = fold (keywordStep text input) keywords 0"

text \<open>
  The outer loop fills the object \<open>categoryScores\<close>. An object with string keys is an
  association list in insertion order: assigning to a fresh key appends the entry,
  assigning to a present key replaces its value in place, which is \<open>AList.update\<close>.
\<close>

definition categoryScores ::
  "(string \<times> string list) list \<Rightarrow> CategorizationInput \<Rightarrow> (string \<times> nat) list" where
  "categoryScores table input =
     (let text = haystack input
      in fold (\<lambda>(category, keywords) scores.
                 AList.update category (categoryScore text input keywords) scores)
           table [])"

text \<open>
  \<open>categoryScores[a[0]] > categoryScores[b[0]]\<close>: a comparison of two member lookups,
  false when a member is missing.
\<close>

definition scoreGreater :: "(string \<times> nat) list \<Rightarrow> string \<Rightarrow> string \<Rightarrow> bool" where
  "scoreGreater scores ka kb =
     (case (map_of scores ka, map_of scores kb) of
        (Some x, Some y) \<Rightarrow> x > y
      | _ \<Rightarrow> False)"

text \<open>The callback of \<open>reduce\<close>: \<open>(a, b) => categoryScores[a[0]] > categoryScores[b[0]] ? a : b\<close>\<close>

definition better ::
  "(string \<times> nat) list \<Rightarrow> string \<times> nat \<Rightarrow> string \<times> nat \<Rightarrow> string \<times> nat" where
  "better scores a b = (if scoreGreater scores (fst a) (fst b) then a else b)"

text \<open>
  \<open>Object.entries(categoryScores).reduce(...)\<close> without an initial value: the first
  entry starts the accumulation; on an empty array \<open>reduce\<close> throws, which is \<open>None\<close>
  here.
\<close>

definition bestCategory :: "(string \<times> nat) list \<Rightarrow> (string \<times> nat) option" where
  "bestCategory scores =
     (case scores of
        [] \<Rightarrow> None
      | e # es \<Rightarrow> Some (foldl (better scores) e es))"

text \<open>The \<open>catch\<close> branch turns any exception into the category \<open>Other\<close>.\<close>

definition categorizeReceipt :: "CategorizationInput \<Rightarrow> string" where
  "categorizeReceipt input =
     (case bestCategory (categoryScores CATEGORY_KEYWORDS input) of
        None \<Rightarrow> ''Other''
      | Some best \<Rightarrow> if snd best > 0 then fst best else ''Other'')"


section \<open>Regular expressions\<close>

text \<open>
  A backtracking matcher maps a state (the captures made so far, the input still to be
  read) to the list of all states in which it can finish, most preferred first. The
  regex engine takes the first alternative that lets the rest of the pattern succeed,
  which is the head of the list of the whole pattern. Every quantifier of the four
  patterns of the parser ranges over a character class.
\<close>

type_synonym mstate = "string list \<times> string"
type_synonym matcher = "mstate \<Rightarrow> mstate list"

text \<open>One character of a class.\<close>

definition chr :: "(char \<Rightarrow> bool) \<Rightarrow> matcher" where
  "chr P st = (case snd st of [] \<Rightarrow> [] | c # cs \<Rightarrow> if P c then [(fst st, cs)] else [])"

definition lit :: "char \<Rightarrow> char \<Rightarrow> bool" where
  "lit c x = (x = c)"

definition andThen :: "matcher \<Rightarrow> matcher \<Rightarrow> matcher" where
  "andThen m1 m2 st = concat (map m2 (m1 st))"

fun seqs :: "matcher list \<Rightarrow> matcher" where
  "seqs [] = (\<lambda>st. [st])"
| "seqs (m # ms) = andThen m (seqs ms)"

text \<open>\<open>a|b\<close>\<close>

definition orElse :: "matcher \<Rightarrow> matcher \<Rightarrow> matcher" where
  "orElse m1 m2 st = m1 st @ m2 st"

text \<open>\<open>a?\<close> (greedy: with \<open>a\<close> first, then without)\<close>

definition opt :: "matcher \<Rightarrow> matcher" where
  "opt m st = m st @ [st]"

text \<open>The inputs left by \<open>[P]*\<close>, longest match first, and by \<open>[P]*?\<close>, shortest first.\<close>

fun greedyRests :: "(char \<Rightarrow> bool) \<Rightarrow> string \<Rightarrow> string list" where
  "greedyRests P [] = [[]]"
| "greedyRests P (c # cs) = (if P c then greedyRests P cs @ [c # cs] else [c # cs])"

fun lazyRests :: "(char \<Rightarrow> bool) \<Rightarrow> string \<Rightarrow> string list" where
  "lazyRests P [] = [[]]"
| "lazyRests P (c # cs) = (c # cs) # (if P c then lazyRests P cs else [])"

definition star :: "(char \<Rightarrow> bool) \<Rightarrow> matcher" where
  "star P st = map (Pair (fst st)) (greedyRests P (snd st))"

definition plus :: "(char \<Rightarrow> bool) \<Rightarrow> matcher" where
  "plus P = andThen (chr P) (star P)"

text \<open>\<open>[P]+?\<close>\<close>

definition lazyPlus :: "(char \<Rightarrow> bool) \<Rightarrow> matcher" where
  "lazyPlus P = andThen (chr P) (\<lambda>st. map (Pair (fst st)) (lazyRests P (snd st)))"

text \<open>A capture group appends the text its body has consumed to the captures.\<close>

definition group :: "matcher \<Rightarrow> matcher" where
  "group m st =
     map (\<lambda>(caps, rest). (caps @ [take (length (snd st) - length rest) (snd st)], rest)) (m st)"

text \<open>\<open>$\<close> without the multiline flag: the end of the input.\<close>

definition eoi :: matcher where
  "eoi st = (if snd st = [] then [st] else [])"

text \<open>A literal word under the flag \<open>i\<close>.\<close>

fun lit_ci :: "string \<Rightarrow> matcher" where
  "lit_ci [] = (\<lambda>st. [st])"
| "lit_ci (c # cs) = andThen (chr (\<lambda>x. toLowerChar x = toLowerChar c)) (lit_ci cs)"

text \<open>Matching at one position, and the leftmost match from a position on.\<close>

definition matchAt :: "matcher \<Rightarrow> string \<Rightarrow> mstate option" where
  "matchAt m s = (case m ([], s) of [] \<Rightarrow> None | st # _ \<Rightarrow> Some st)"

fun search :: "matcher \<Rightarrow> string \<Rightarrow> mstate option" where
  "search m [] = matchAt m []"
| "search m (c # cs) = (case matchAt m (c # cs) of None \<Rightarrow> search m cs | Some st \<Rightarrow> Some st)"

text \<open>\<open>match[i + 1]\<close>; in the four patterns every group takes part in every match.\<close>

definition cap :: "string list \<Rightarrow> nat \<Rightarrow> string" where
  "cap caps i = (if i < length caps then caps ! i else [])"

text \<open>\<open>\d+\.?\d*\<close>\<close>

definition decimal :: matcher where
  "decimal = seqs [plus isDigit, opt (chr (lit CHR ''.'')), star isDigit]"

text \<open>\<open>/(?:total|amount|sum)[:\s]*\$?(\d+\.?\d*)/i\<close>\<close>

definition totalRegex :: matcher where
  "totalRegex = seqs
     [orElse (lit_ci ''total'') (orElse (lit_ci ''amount'') (lit_ci ''sum'')),
      star (\<lambda>c. c = CHR '':'' \<or> isSpace c),
      opt (chr (lit CHR ''$'')),
      group decimal]"

text \<open>\<open>/\$(\d+\.?\d*)/g\<close>\<close>

definition amountRegex :: matcher where
  "amountRegex = seqs [chr (lit CHR ''$''), group decimal]"

definition dateSep :: "char \<Rightarrow> bool" where
  "dateSep c = (c = CHR ''/'' \<or> c = CHR ''-'' \<or> c = CHR ''.'')"

text \<open>\<open>/(\d{1,2}[\/\-\.]\d{1,2}[\/\-\.]\d{2,4})/\<close>\<close>

definition dateRegex :: matcher where
  "dateRegex = group (seqs
     [chr isDigit, opt (chr isDigit),
      chr dateSep,
      chr isDigit, opt (chr isDigit),
      chr dateSep,
      chr isDigit, chr isDigit, opt (seqs [chr isDigit, opt (chr isDigit)])])"

text \<open>
  \<open>/^(.+?)\s+(\d*\.?\d*)\s*\$?(\d+\.?\d*)$/\<close>; because of \<open>^\<close> it is only ever tried at
  the start of the line (\<open>matchAt\<close>).
\<close>

definition itemRegex :: matcher where
  "itemRegex = seqs
     [group (lazyPlus (\<lambda>c. \<not> isLineTerminator c)),
      plus isSpace,
      group (seqs [star isDigit, opt (chr (lit CHR ''.'')), star isDigit]),
      star isSpace,
      opt (chr (lit CHR ''$'')),
      group decimal,
      eoi]"


section \<open>Receipt field parser\<close>

record LineItem = Item +
  quantity :: number

text \<open>
  \<open>Partial<OCRResult>\<close> as \<open>parseReceiptText\<close> fills it: a member that was never
  assigned is \<open>None\<close>. A \<open>Date\<close> is its time value, milliseconds since the epoch.
\<close>

record ParsedFields =
  merchantName :: "string option"
  totalAmount :: "number option"
  date :: "int option"
  items :: "LineItem list option"

text \<open>\<open>text.split('\n').map(line => line.trim()).filter(line => line)\<close>\<close>

definition normalizedLines :: "string \<Rightarrow> string list" where
  "normalizedLines text = filter (\<lambda>line. line \<noteq> []) (map trim (split (CHR 0x0A) text))"

text \<open>The \<open>for\<close> loop over the first lines, from index \<open>i\<close> on; \<open>break\<close> returns the line.\<close>

function merchantLoop :: "string list \<Rightarrow> nat \<Rightarrow> string option" where
  "merchantLoop lines i =
     (if i < min 3 (length lines) then
        (let line = lines ! i in
         if \<not> list_ex isDigit line \<and>
            \<not> includes_str (toLowerCase line) ''receipt'' \<and>
            \<not> includes_str (toLowerCase line) ''tax'' \<and>
            length line > 3
         then Some line
         else merchantLoop lines (i + 1))
      else None)"
  by pat_completeness auto
termination
  by (relation "measure (\<lambda>(lines, i). min 3 (length lines) - i)") auto

declare merchantLoop.simps [simp del]

text \<open>
  The \<open>while\<close> loop over \<open>amountRegex.exec(text)\<close>: each round searches from where the
  previous match ended and pushes the parsed capture.
\<close>

function execAll :: "string \<Rightarrow> number list" where
  "execAll s =
     (case search amountRegex s of
        None \<Rightarrow> []
      | Some (caps, rest) \<Rightarrow> parseFloat (cap caps 0) # execAll rest)"
  by pat_completeness auto
termination
proof (relation "measure length")
  show "wf (measure length)" by simp
next
  fix s :: string and st caps rest
  assume found: "search amountRegex s = Some st" and st: "(caps, rest) = st"
  have rests: "length r \<le> length t" if "r \<in> set (greedyRests P t)" for r t P
    using that by (induction t) (auto split: if_splits)
  have dec: "length (snd r) \<le> length t" if "r \<in> set (decimal (c, t))" for r c t
    using that
    by (fastforce simp: decimal_def plus_def andThen_def opt_def star_def chr_def
          split: list.splits if_splits dest: rests)
  have consume: "length (snd r) < length t" if "r \<in> set (amountRegex (c, t))" for r c t
    using that
    by (fastforce simp: amountRegex_def andThen_def group_def chr_def
          split: list.splits if_splits dest: dec)
  have at: "length (snd r) < length t" if "matchAt amountRegex t = Some r" for r t
  proof -
    from that have "r \<in> set (amountRegex ([], t))"
      by (auto simp: matchAt_def split: list.splits)
    then show ?thesis by (rule consume)
  qed
  have "length (snd r) < length t" if "search amountRegex t = Some r" for r t
    using that
  proof (induction t)
    case Nil
    then show ?case using at [of "[]" r] by simp
  next
    case (Cons a t)
    show ?case
    proof (cases "matchAt amountRegex (a # t)")
      case None
      with Cons show ?thesis by simp
    next
      case (Some r')
      with Cons.prems have "r' = r" by simp
      with Some show ?thesis using at by blast
    qed
  qed
  from this [OF found] st show "(rest, s) \<in> measure length" by auto
qed

declare execAll.simps [simp del]

text \<open>The body of the loop of \<open>parseLineItems\<close>: one line, the items pushed so far.\<close>

definition parseLine :: "string \<Rightarrow> LineItem list \<Rightarrow> LineItem list" where
  "parseLine line acc =
     (case matchAt itemRegex line of
        None \<Rightarrow> acc
      | Some (caps, rest) \<Rightarrow>
          (let nm = trim (cap caps 0);
               quantityStr = cap caps 1;
               priceStr = cap caps 2
           in if nm \<noteq> [] \<and> priceStr \<noteq> [] then
                (let qty = (if quantityStr \<noteq> [] then parseFloat quantityStr else Num 1);
                     prc = parseFloat priceStr
                 in if prc \<noteq> NaN \<and> gt prc (Num 0)
                    then acc @ [\<lparr>name = nm, price = prc,
                                  quantity = (if qty = NaN then Num 1 else qty)\<rparr>]
                    else acc)
              else acc))"

definition parseLineItems :: "string list \<Rightarrow> LineItem list" where
  "parseLineItems lines = fold parseLine lines []"


text \<open>
  \<open>parseReceiptText\<close>. The four extractions assign to different members of \<open>result\<close>
  and do not read each other's outcome. \<open>new Date(string)\<close> belongs to the JavaScript
  runtime and is the parameter \<open>newDate\<close>; it yields \<open>None\<close> for an invalid date, the
  case \<open>isNaN(parsedDate.getTime())\<close>.
\<close>

definition parseReceiptText :: "(string \<Rightarrow> int option) \<Rightarrow> string \<Rightarrow> ParsedFields" where
  "parseReceiptText newDate text =
     (let lines = normalizedLines text
      in \<lparr>merchantName = (if length lines > 0 then merchantLoop lines 0 else None),
          totalAmount =
            (case search totalRegex text of
               Some (caps, rest) \<Rightarrow> Some (parseFloat (cap caps 0))
             | None \<Rightarrow>
                 (let amounts = execAll text
                  in if length amounts > 0 then Some (Math_max amounts) else None)),
          date =
            (case search dateRegex text of
               Some (caps, rest) \<Rightarrow> newDate (cap caps 0)
             | None \<Rightarrow> None),
          items =
            (let found = parseLineItems lines
             in if length found > 0 then Some found else None)\<rparr>)"


section \<open>The Date constructor of the runtime\<close>

text \<open>
  The service runs on Node.js. For a string that is not in ISO format, such as the
  numeric dates the date pattern finds, its \<open>Date\<close> constructor uses the engine's legacy
  parser: three numbers are read as month, day, year (as year, month, day when the first
  number is not between 1 and 31); a year below 50 means 20xx and a year from 50 to 99
  means 19xx; the month must lie between 1 and 12 and the day between 1 and 31. The time
  value is then computed from the first day of that month plus the day offset, so a day
  past the end of the month runs over into the next month instead of being rejected.
  \<open>legacyDate\<close> is this behaviour with the local time zone taken to be UTC. It serves to
  run the parser on concrete texts; the general statements below hold for every
  constructor.
\<close>

definition daysFromCivil :: "int \<Rightarrow> int \<Rightarrow> int \<Rightarrow> int" where
  "daysFromCivil y m d =
     (let y' = (if m \<le> 2 then y - 1 else y);
          era = y' div 400;
          yoe = y' - era * 400;
          mp = (if m > 2 then m - 3 else m + 9);
          doy = (153 * mp + 2) div 5 + d - 1;
          doe = yoe * 365 + yoe div 4 - yoe div 100 + doy
      in era * 146097 + doe - 719468)"

fun splitWhen :: "(char \<Rightarrow> bool) \<Rightarrow> string \<Rightarrow> string list" where
  "splitWhen P [] = [[]]"
| "splitWhen P (c # cs) =
     (if P c then [] # splitWhen P cs
      else (case splitWhen P cs of
              l # ls \<Rightarrow> (c # l) # ls
            | [] \<Rightarrow> [[c]]))"

definition legacyDate :: "string \<Rightarrow> int option" where
  "legacyDate s =
     (case splitWhen dateSep s of
        [a, b, c] \<Rightarrow>
          if a \<noteq> [] \<and> b \<noteq> [] \<and> c \<noteq> [] \<and> list_all isDigit (a @ b @ c) then
            (let c0 = digitsVal a; c1 = digitsVal b; c2 = digitsVal c;
                 (y, m, d) = (if 1 \<le> c0 \<and> c0 \<le> 31 then (c2, c0, c1) else (c0, c1, c2));
                 year = (if y \<le> 49 then y + 2000 else if y \<le> 99 then y + 1900 else y)
             in if 1 \<le> m \<and> m \<le> 12 \<and> 1 \<le> d \<and> d \<le> 31
                then Some (daysFromCivil year m d * 86400000)
                else None)
          else None
      | _ \<Rightarrow> None)"


section \<open>OCR pipeline\<close>

text \<open>
  \<open>processReceiptOCR\<close> acts on the file system, modelled by the set of paths that
  exist. The collaborators outside the repository are members of the environment:
  the Date constructor, the path arithmetic
  \<open>path.join(path.dirname(p), 'processed_' + path.basename(p))\<close>, whether the image
  pipeline of \<open>sharp\<close> succeeds on a source image (it then has written the output file),
  and the recognition engine, which yields text and a confidence from 0 to 100 or fails.
\<close>

record OCRResult = ParsedFields +
  rawText :: string
  confidence :: rat

datatype error = OcrProcessingFailed

record Env =
  newDate :: "string \<Rightarrow> int option"
  processedPath :: "string \<Rightarrow> string"
  sharpToFile :: "string \<Rightarrow> bool"
  recognize :: "string \<Rightarrow> (string \<times> rat) option"

text \<open>\<open>fs.unlinkSync\<close> throws (\<open>None\<close>) when the path does not exist.\<close>

definition unlinkSync :: "string \<Rightarrow> string set \<Rightarrow> string set option" where
  "unlinkSync p fs = (if p \<in> fs then Some (fs - {p}) else None)"

text \<open>\<open>preprocessImage\<close> returns the path to recognise; its \<open>catch\<close> returns the source path.\<close>

definition preprocessImage :: "Env \<Rightarrow> string \<Rightarrow> string set \<Rightarrow> string \<times> string set" where
  "preprocessImage env imagePath fs =
     (let outputPath = processedPath env imagePath
      in if sharpToFile env imagePath then (outputPath, insert outputPath fs)
         else (imagePath, fs))"

text \<open>
  The result pairs what the promise settles to with the file system left behind. Every
  exception inside the \<open>try\<close> block reaches the \<open>catch\<close>, which only logs and throws
  \<open>Failed to process receipt with OCR\<close>.
\<close>

definition processReceiptOCR ::
  "Env \<Rightarrow> string \<Rightarrow> string set \<Rightarrow> (error + OCRResult) \<times> string set" where
  "processReceiptOCR env imagePath fs =
     (let (preprocessedPath, fs1) = preprocessImage env imagePath fs
      in case recognize env preprocessedPath of
           None \<Rightarrow> (Inl OcrProcessingFailed, fs1)
         | Some (text, conf) \<Rightarrow>
             (let parsedData = parseReceiptText (newDate env) text;
                  result = \<lparr>merchantName = merchantName parsedData,
                            totalAmount = totalAmount parsedData,
                            date = date parsedData,
                            items = items parsedData,
                            rawText = text,
                            confidence = conf / 100\<rparr>
              in if preprocessedPath \<noteq> imagePath then
                   (case unlinkSync preprocessedPath fs1 of
                      None \<Rightarrow> (Inl OcrProcessingFailed, fs1)
                    | Some fs2 \<Rightarrow> (Inr result, fs2))
                 else (Inr result, fs1)))"


section \<open>Specification-level notions\<close>

text \<open>
  The haystack in the words of the specification: the merchant name, the description
  and the item names, in this order and separated by single spaces, in lower case. An
  absent description counts as the empty string, absent items as no item.
\<close>

definition searchText :: "CategorizationInput \<Rightarrow> string" where
  "searchText input =
     toLowerCase
       (input_merchantName input @ '' '' @
        (case input_description input of None \<Rightarrow> [] | Some d \<Rightarrow> d) @
        concat (map (\<lambda>it. '' '' @ name it)
                  (case input_items input of None \<Rightarrow> [] | Some its \<Rightarrow> its)))"

text \<open>
  The points one keyword contributes in the words of the specification: three when it
  occurs in the lower-cased merchant name, otherwise one when it occurs in the
  haystack, otherwise none.
\<close>

definition keywordPoints :: "CategorizationInput \<Rightarrow> string \<Rightarrow> nat" where
  "keywordPoints input keyword =
     (if includes_str (toLowerCase (input_merchantName input)) (toLowerCase keyword) then 3
      else if includes_str (searchText input) (toLowerCase keyword) then 1
      else 0)"

text \<open>
  The normalized lines in the words of the specification. \<open>linesText ls\<close> is the text
  whose lines are \<open>ls\<close>, a line feed between neighbours; a line is blank when it has
  nothing but white space; \<open>strip\<close> removes the white space at the two ends of a line.
  The normalized lines of a text are its lines that are not blank, stripped.
\<close>

definition linesText :: "string list \<Rightarrow> string" where
  "linesText ls =
     (case ls of
        [] \<Rightarrow> []
      | l # rest \<Rightarrow> l @ concat (map (\<lambda>x. CHR 0x0A # x) rest))"

definition blank :: "string \<Rightarrow> bool" where
  "blank l \<longleftrightarrow> (\<forall>c\<in>set l. isSpace c)"

definition strip :: "string \<Rightarrow> string" where
  "strip l =
     dropWhile isSpace (take (length l - length (takeWhile isSpace (rev l))) l)"

text \<open>
  A line that may serve as merchant name: no digit, neither \<open>receipt\<close> nor \<open>tax\<close> in any
  letter case, more than three characters.
\<close>

definition merchantCandidate :: "string \<Rightarrow> bool" where
  "merchantCandidate line \<longleftrightarrow>
     (\<forall>c\<in>set line. \<not> isDigit c) \<and>
     \<not> includes_str (toLowerCase line) ''receipt'' \<and>
     \<not> includes_str (toLowerCase line) ''tax'' \<and>
     length line > 3"

text \<open>
  Patterns as sets of strings. \<open>conc A B\<close> is a string of \<open>A\<close> followed by a string of
  \<open>B\<close>; \<open>chars P lo hi\<close> is \<open>[P]{lo,hi}\<close> and \<open>charsFrom P lo\<close> is \<open>[P]{lo,}\<close>.
\<close>

definition conc :: "string set \<Rightarrow> string set \<Rightarrow> string set" where
  "conc A B = {u @ v | u v. u \<in> A \<and> v \<in> B}"

definition chars :: "(char \<Rightarrow> bool) \<Rightarrow> nat \<Rightarrow> nat \<Rightarrow> string set" where
  "chars P lo hi = {w. lo \<le> length w \<and> length w \<le> hi \<and> (\<forall>c\<in>set w. P c)}"

definition charsFrom :: "(char \<Rightarrow> bool) \<Rightarrow> nat \<Rightarrow> string set" where
  "charsFrom P lo = {w. lo \<le> length w \<and> (\<forall>c\<in>set w. P c)}"

text \<open>The date pattern \<open>D{1,2}[/-.]D{1,2}[/-.]D{2,4}\<close>.\<close>

definition DATE :: "string set" where
  "DATE = conc (chars isDigit 1 2) (conc (chars dateSep 1 1)
         (conc (chars isDigit 1 2) (conc (chars dateSep 1 1) (chars isDigit 2 4))))"

text \<open>A decimal: digits, an optional dot, optional further digits.\<close>

definition DECIMAL :: "string set" where
  "DECIMAL = conc (charsFrom isDigit 1) (conc (chars (lit CHR ''.'') 0 1) (charsFrom isDigit 0))"

text \<open>
  The label \<open>total\<close>, \<open>amount\<close> or \<open>sum\<close> in any letter case, followed by colons and white
  space and an optional dollar sign; a labelled amount; a dollar amount.
\<close>

definition LABEL :: "string set" where
  "LABEL = {w. toLowerCase w \<in> {''total'', ''amount'', ''sum''}}"

definition LABEL_PREFIX :: "string set" where
  "LABEL_PREFIX = conc LABEL (conc (charsFrom (\<lambda>c. c = CHR '':'' \<or> isSpace c) 0)
                                   (chars (lit CHR ''$'') 0 1))"

definition LABELLED :: "string set" where
  "LABELLED = conc LABEL_PREFIX DECIMAL"

definition DOLLAR_AMOUNT :: "string set" where
  "DOLLAR_AMOUNT = conc {''$''} DECIMAL"



text \<open>
  A pattern occurs in a text; and \<open>text = pre @ w @ rest\<close> is a first occurrence of it:
  no occurrence starts further left.
\<close>

definition occurs :: "string set \<Rightarrow> string \<Rightarrow> bool" where
  "occurs W text \<longleftrightarrow> (\<exists>pre w rest. text = pre @ w @ rest \<and> w \<in> W)"

definition firstOccurrence ::
  "string set \<Rightarrow> string \<Rightarrow> string \<Rightarrow> string \<Rightarrow> string \<Rightarrow> bool" where
  "firstOccurrence W text pre w rest \<longleftrightarrow>
     text = pre @ w @ rest \<and> w \<in> W \<and>
     (\<forall>pre' w' rest'. text = pre' @ w' @ rest' \<and> w' \<in> W \<longrightarrow> length pre \<le> length pre')"

text \<open>
  A matcher without capture groups accepts a pattern: from any state it can finish
  exactly after the prefixes of the input that belong to the pattern.
\<close>

definition accepts :: "matcher \<Rightarrow> string set \<Rightarrow> bool" where
  "accepts m W \<longleftrightarrow>
     (\<forall>c s r. r \<in> set (m (c, s)) \<longleftrightarrow> fst r = c \<and> (\<exists>w\<in>W. s = w @ snd r))"

text \<open>
  The numbers of all substrings \<open>$<decimal>\<close> of a text, overlapping ones included:
  \<open>$12.50\<close> contributes those of \<open>$1\<close>, \<open>$12\<close>, \<open>$12.\<close>, \<open>$12.5\<close> and \<open>$12.50\<close>.
\<close>

definition amountValues :: "string \<Rightarrow> rat set" where
  "amountValues text =
     {v. \<exists>pre w rest. text = pre @ ''$'' @ w @ rest \<and> w \<in> DECIMAL \<and> parseFloat w = Num v}"

text \<open>
  The longest prefix of a string that \<open>\d*\.?\d*\<close> can read: the leading digits, then a
  dot with the digits after it when the digits are followed by a dot.
\<close>

definition munch :: "string \<Rightarrow> string" where
  "munch t =
     takeWhile isDigit t @
     (case dropWhile isDigit t of
        [] \<Rightarrow> []
      | x # r \<Rightarrow> if x = CHR ''.'' then x # takeWhile isDigit r else [])"

text \<open>
  Scores over an already lower-cased haystack and merchant name, with the keywords taken
  as they stand in the table. They agree with \<open>categoryScores\<close> because every keyword
  of the table is lower case, and make the scores of a concrete input cheap to compute.
\<close>

definition pointsAt :: "string \<Rightarrow> string \<Rightarrow> string \<Rightarrow> nat" where
  "pointsAt text merchant k =
     (if includes_str merchant k then 3 else if includes_str text k then 1 else 0)"

definition scoresAt :: "string \<Rightarrow> string \<Rightarrow> (string \<times> nat) list" where
  "scoresAt text merchant =
     map (\<lambda>(category, kws). (category, sum_list (map (pointsAt text merchant) kws)))
       CATEGORY_KEYWORDS"


section \<open>Substrings and lower case\<close>

lemma startsWith_iff: "startsWith s p \<longleftrightarrow> (\<exists>b. s = p @ b)"
  by (induction s p rule: startsWith.induct) auto

lemma includes_str_iff: "includes_str s p \<longleftrightarrow> (\<exists>a b. s = a @ p @ b)"
proof (induction s)
  case Nil
  then show ?case by auto
next
  case (Cons c cs)
  show ?case
  proof
    assume "includes_str (c # cs) p"
    then consider "startsWith (c # cs) p" | "includes_str cs p" by auto
    then show "\<exists>a b. c # cs = a @ p @ b"
    proof cases
      case 1
      then obtain b where "c # cs = p @ b" by (auto simp: startsWith_iff)
      then have "c # cs = [] @ p @ b" by simp
      then show ?thesis by blast
    next
      case 2
      with Cons obtain a b where "cs = a @ p @ b" by auto
      then have "c # cs = (c # a) @ p @ b" by simp
      then show ?thesis by blast
    qed
  next
    assume "\<exists>a b. c # cs = a @ p @ b"
    then obtain a b where ab: "c # cs = a @ p @ b" by auto
    show "includes_str (c # cs) p"
    proof (cases a)
      case Nil
      with ab have "startsWith (c # cs) p" by (auto simp: startsWith_iff)
      then show ?thesis by simp
    next
      case (Cons x xs)
      with ab have "cs = xs @ p @ b" by simp
      with Cons.IH show ?thesis by auto
    qed
  qed
qed

lemma includes_str_append: "includes_str s p \<Longrightarrow> includes_str (s @ t) p"
  unfolding includes_str_iff by (metis append.assoc)

lemma toLowerChar_fixed: "c \<notin> set upperCaseChars \<Longrightarrow> toLowerChar c = c"
proof -
  assume "c \<notin> set upperCaseChars"
  then have "map_of (zip upperCaseChars lowerCaseChars) c = None"
    by (subst map_of_zip_is_None) (simp_all add: upperCaseChars_def lowerCaseChars_def)
  then show ?thesis by (simp only: toLowerChar_def option.case)
qed

text \<open>Every upper-case letter has bit 5 clear, so a character with bit 5 set stays.\<close>

lemma toLowerChar_bit5:
  "toLowerChar (Char b0 b1 b2 b3 b4 True b6 b7) = Char b0 b1 b2 b3 b4 True b6 b7"
  by (rule toLowerChar_fixed) (simp add: upperCaseChars_def)

lemma keywords_lower_case:
  "list_all (\<lambda>(category, kws). list_all (\<lambda>k. toLowerCase k = k) kws) CATEGORY_KEYWORDS"
  by (simp add: CATEGORY_KEYWORDS_def toLowerCase_def toLowerChar_bit5)


section \<open>The scores of the categories\<close>

lemma join_Cons: "join sep (x # xs) = x @ concat (map (\<lambda>y. sep @ y) xs)"
  by (induction xs arbitrary: x) simp_all

text \<open>The text the code searches is the haystack of the specification.\<close>

lemma haystack_searchText: "haystack input = searchText input"
  unfolding haystack_def searchText_def
  by (simp add: join_Cons comp_def del: join.simps split: option.splits)

lemma haystack_merchant:
  "\<exists>t. haystack input = toLowerCase (input_merchantName input) @ t"
  by (cases "input_items input";
      simp add: haystack_def toLowerCase_def split: option.splits list.splits)

lemma keywordStep_points:
  "keywordStep (haystack input) input keyword score = score + keywordPoints input keyword"
proof -
  obtain t where "haystack input = toLowerCase (input_merchantName input) @ t"
    using haystack_merchant by blast
  then have "includes_str (haystack input) k"
    if "includes_str (toLowerCase (input_merchantName input)) k" for k
    using that by (simp add: includes_str_append)
  then show ?thesis
    by (auto simp: keywordStep_def keywordPoints_def haystack_searchText [symmetric])
qed

lemma fold_keywordStep:
  "fold (keywordStep (haystack input) input) kws s
     = s + sum_list (map (keywordPoints input) kws)"
  by (induction kws arbitrary: s) (simp_all add: keywordStep_points)

lemma categoryScore_points:
  "categoryScore (haystack input) input kws = sum_list (map (keywordPoints input) kws)"
  by (simp add: categoryScore_def fold_keywordStep)

lemma update_fresh: "k \<notin> fst ` set acc \<Longrightarrow> AList.update k v acc = acc @ [(k, v)]"
  by (induction acc) auto

lemma fold_update_distinct:
  "distinct (map fst table) \<Longrightarrow> fst ` set table \<inter> fst ` set acc = {} \<Longrightarrow>
   fold (\<lambda>(category, kws) scores. AList.update category (f kws) scores) table acc
     = acc @ map (\<lambda>(category, kws). (category, f kws)) table"
proof (induction table arbitrary: acc)
  case Nil
  then show ?case by simp
next
  case (Cons e table)
  obtain c kws where e: "e = (c, kws)" by (cases e)
  from Cons.prems have fresh: "c \<notin> fst ` set acc" by (auto simp: e)
  have "fst ` set table \<inter> fst ` set (acc @ [(c, f kws)]) = {}"
    using Cons.prems by (auto simp: e)
  with Cons.IH [of "acc @ [(c, f kws)]"] Cons.prems
  show ?case by (simp add: e update_fresh [OF fresh])
qed

lemma categoryScores_map:
  "distinct (map fst table) \<Longrightarrow>
   categoryScores table input
     = map (\<lambda>(category, kws). (category, sum_list (map (keywordPoints input) kws))) table"
  by (simp add: categoryScores_def fold_update_distinct categoryScore_points)

lemma distinct_categories: "distinct (map fst CATEGORY_KEYWORDS)"
  by (simp add: CATEGORY_KEYWORDS_def)

lemma categories_nonempty: "CATEGORY_KEYWORDS \<noteq> []"
  by (simp add: CATEGORY_KEYWORDS_def)

lemma categoryScores_keys:
  "map fst (categoryScores CATEGORY_KEYWORDS input) = map fst CATEGORY_KEYWORDS"
  by (simp add: categoryScores_map [OF distinct_categories] case_prod_beta comp_def)

lemma categoryScores_nonempty: "categoryScores CATEGORY_KEYWORDS input \<noteq> []"
  using categories_nonempty by (simp add: categoryScores_map [OF distinct_categories])

lemma categoryScores_distinct: "distinct (map fst (categoryScores CATEGORY_KEYWORDS input))"
  using distinct_categories by (simp add: categoryScores_keys)

lemma categoryScores_scoresAt:
  "categoryScores CATEGORY_KEYWORDS input
     = scoresAt (haystack input) (toLowerCase (input_merchantName input))"
proof -
  have "keywordPoints input k = pointsAt (haystack input) (toLowerCase (input_merchantName input)) k"
    if "(c, kws) \<in> set CATEGORY_KEYWORDS" "k \<in> set kws" for c kws k
  proof -
    from that keywords_lower_case have "toLowerCase k = k"
      by (auto simp: list_all_iff)
    then show ?thesis
      by (simp add: keywordPoints_def pointsAt_def haystack_searchText [symmetric])
  qed
  then show ?thesis
    unfolding categoryScores_map [OF distinct_categories] scoresAt_def
    by (auto intro!: map_cong arg_cong [where f = sum_list])
qed

text \<open>A category scores zero exactly when none of its keywords occurs in the haystack.\<close>

lemma keywordPoints_zero:
  "keywordPoints input k = 0 \<longleftrightarrow> \<not> includes_str (haystack input) (toLowerCase k)"
proof -
  obtain t where "haystack input = toLowerCase (input_merchantName input) @ t"
    using haystack_merchant by blast
  then have "includes_str (haystack input) (toLowerCase k)"
    if "includes_str (toLowerCase (input_merchantName input)) (toLowerCase k)"
    using that by (simp add: includes_str_append)
  then show ?thesis by (auto simp: keywordPoints_def haystack_searchText [symmetric])
qed

lemma scores_zero_iff:
  "(\<forall>e\<in>set (categoryScores CATEGORY_KEYWORDS input). snd e = 0) \<longleftrightarrow>
   (\<forall>(category, kws)\<in>set CATEGORY_KEYWORDS.
      \<forall>k\<in>set kws. \<not> includes_str (haystack input) (toLowerCase k))"
  unfolding categoryScores_map [OF distinct_categories]
  by (auto simp: keywordPoints_zero [symmetric])


section \<open>The category that is selected\<close>

lemma better_entries:
  assumes "distinct (map fst scores)" "a \<in> set scores" "b \<in> set scores"
  shows "better scores a b = (if snd a > snd b then a else b)"
proof -
  have "map_of scores (fst a) = Some (snd a)" "map_of scores (fst b) = Some (snd b)"
    using assms by simp_all
  then show ?thesis by (simp add: better_def scoreGreater_def)
qed

text \<open>
  The reduction ends on the last entry of maximal score: everything before it scores at
  most as much, everything after it strictly less.
\<close>

lemma reduce_last_maximum:
  assumes dist: "distinct (map fst scores)" and sub: "set (e # es) \<subseteq> set scores"
  shows "\<exists>pre post. e # es = pre @ foldl (better scores) e es # post
           \<and> (\<forall>x\<in>set pre. snd x \<le> snd (foldl (better scores) e es))
           \<and> (\<forall>x\<in>set post. snd x < snd (foldl (better scores) e es))"
  using sub
proof (induction es rule: rev_induct)
  case Nil
  show ?case by (rule exI [of _ "[]"], rule exI [of _ "[]"]) simp
next
  case (snoc b es)
  define r where "r = foldl (better scores) e es"
  from snoc.prems have sub': "set (e # es) \<subseteq> set scores" by auto
  from snoc.IH [OF sub'] obtain pre post where dec: "e # es = pre @ r # post"
    and pre: "\<forall>x\<in>set pre. snd x \<le> snd r" and post: "\<forall>x\<in>set post. snd x < snd r"
    unfolding r_def by blast
  have "r \<in> set (e # es)" unfolding dec by simp
  with snoc.prems have rin: "r \<in> set scores" and bin: "b \<in> set scores" by auto
  have step: "foldl (better scores) e (es @ [b]) = (if snd r > snd b then r else b)"
    using better_entries [OF dist rin bin] by (simp add: r_def)
  show ?case
  proof (cases "snd r > snd b")
    case True
    have "e # es @ [b] = pre @ r # (post @ [b])" using dec by simp
    moreover have "\<forall>x\<in>set (post @ [b]). snd x < snd r" using post True by auto
    ultimately have "e # es @ [b] = pre @ r # (post @ [b])
        \<and> (\<forall>x\<in>set pre. snd x \<le> snd r) \<and> (\<forall>x\<in>set (post @ [b]). snd x < snd r)"
      using pre by blast
    then show ?thesis unfolding step using True by (simp only: if_True) blast
  next
    case False
    have le: "\<forall>x\<in>set (e # es). snd x \<le> snd b"
    proof
      fix x assume "x \<in> set (e # es)"
      then have "x \<in> set pre \<or> x = r \<or> x \<in> set post" unfolding dec by auto
      then have "snd x \<le> snd r" using pre post by auto
      with False show "snd x \<le> snd b" by simp
    qed
    have "e # es @ [b] = (e # es) @ b # [] \<and> (\<forall>x\<in>set (e # es). snd x \<le> snd b)
        \<and> (\<forall>x\<in>set []. snd x < snd b)"
      using le by simp
    then show ?thesis unfolding step using False by (simp only: if_False) blast
  qed
qed

lemma categorizeReceipt_last_maximum:
  "\<exists>pre best post.
     categoryScores CATEGORY_KEYWORDS input = pre @ best # post
     \<and> (\<forall>e\<in>set pre. snd e \<le> snd best)
     \<and> (\<forall>e\<in>set post. snd e < snd best)
     \<and> categorizeReceipt input = (if 0 < snd best then fst best else ''Other'')"
proof -
  define scores where "scores = categoryScores CATEGORY_KEYWORDS input"
  have "scores \<noteq> []" unfolding scores_def by (rule categoryScores_nonempty)
  then obtain e es where sc: "scores = e # es" by (cases scores) auto
  define best where "best = foldl (better scores) e es"
  have dist: "distinct (map fst scores)" unfolding scores_def by (rule categoryScores_distinct)
  have "set (e # es) \<subseteq> set scores" by (simp add: sc)
  from reduce_last_maximum [OF dist this]
  obtain pre post where "e # es = pre @ best # post"
    "\<forall>x\<in>set pre. snd x \<le> snd best" "\<forall>x\<in>set post. snd x < snd best"
    unfolding best_def by blast
  moreover have "categorizeReceipt input = (if 0 < snd best then fst best else ''Other'')"
    unfolding categorizeReceipt_def scores_def [symmetric]
    by (simp add: bestCategory_def sc best_def)
  ultimately show ?thesis unfolding scores_def [symmetric] sc by blast
qed

text \<open>The last entry of maximal score is determined by the list.\<close>

lemma last_maximum_unique:
  fixes b b' :: "string \<times> nat"
  assumes "pre @ b # post = pre' @ b' # post'"
    and "\<forall>x\<in>set pre. snd x \<le> snd b" "\<forall>x\<in>set post. snd x < snd b"
    and "\<forall>x\<in>set pre'. snd x \<le> snd b'" "\<forall>x\<in>set post'. snd x < snd b'"
  shows "b = b'"
proof -
  from assms(1) consider us where "pre = pre' @ us" "us @ b # post = b' # post'"
    | us where "pre @ us = pre'" "b # post = us @ b' # post'"
    by (auto simp: append_eq_append_conv2)
  then show ?thesis
  proof cases
    case 1
    show ?thesis
    proof (cases us)
      case Nil
      with 1 show ?thesis by simp
    next
      case (Cons u us')
      with 1 have "b' \<in> set pre" "b \<in> set post'" by auto
      with assms have "snd b' \<le> snd b" "snd b < snd b'" by auto
      then show ?thesis by simp
    qed
  next
    case 2
    show ?thesis
    proof (cases us)
      case Nil
      with 2 show ?thesis by simp
    next
      case (Cons u us')
      with 2 have "b \<in> set pre'" "b' \<in> set post" by auto
      with assms have "snd b \<le> snd b'" "snd b' < snd b" by auto
      then show ?thesis by simp
    qed
  qed
qed


section \<open>Claims about the categorization scorer\<close>

lemma starbucks_scores:
  "categoryScores CATEGORY_KEYWORDS
     \<lparr>input_merchantName = ''Starbucks Coffee'', input_items = Some [],
      input_description = Some ''''\<rparr>
   = [(''Food & Dining'', 6), (''Transportation'', 0), (''Shopping'', 0),
      (''Entertainment'', 0), (''Healthcare'', 0), (''Travel'', 0), (''Utilities'', 0),
      (''Education'', 0), (''Business'', 0), (''Personal Care'', 0), (''Home & Garden'', 0),
      (''Insurance'', 0), (''Investments'', 0), (''Gifts & Donations'', 0)]"
proof -
  let ?i = "\<lparr>input_merchantName = ''Starbucks Coffee'', input_items = Some [],
             input_description = Some ''''\<rparr>"
  have "haystack ?i = ''starbucks coffee ''"
    and "toLowerCase (input_merchantName ?i) = ''starbucks coffee''"
    by code_simp+
  moreover have "scoresAt ''starbucks coffee '' ''starbucks coffee'' =
     [(''Food & Dining'', 6), (''Transportation'', 0), (''Shopping'', 0),
      (''Entertainment'', 0), (''Healthcare'', 0), (''Travel'', 0), (''Utilities'', 0),
      (''Education'', 0), (''Business'', 0), (''Personal Care'', 0), (''Home & Garden'', 0),
      (''Insurance'', 0), (''Investments'', 0), (''Gifts & Donations'', 0)]"
    by code_simp
  ultimately show ?thesis by (simp only: categoryScores_scoresAt)
qed

lemma subway_scores:
  "categoryScores CATEGORY_KEYWORDS
     \<lparr>input_merchantName = ''Subway'', input_items = None, input_description = None\<rparr>
   = [(''Food & Dining'', 3), (''Transportation'', 3), (''Shopping'', 0),
      (''Entertainment'', 0), (''Healthcare'', 0), (''Travel'', 0), (''Utilities'', 0),
      (''Education'', 0), (''Business'', 0), (''Personal Care'', 0), (''Home & Garden'', 0),
      (''Insurance'', 0), (''Investments'', 0), (''Gifts & Donations'', 0)]"
proof -
  let ?i = "\<lparr>input_merchantName = ''Subway'', input_items = None, input_description = None\<rparr>"
  have "haystack ?i = ''subway ''" and "toLowerCase (input_merchantName ?i) = ''subway''"
    by code_simp+
  moreover have "scoresAt ''subway '' ''subway'' =
     [(''Food & Dining'', 3), (''Transportation'', 3), (''Shopping'', 0),
      (''Entertainment'', 0), (''Healthcare'', 0), (''Travel'', 0), (''Utilities'', 0),
      (''Education'', 0), (''Business'', 0), (''Personal Care'', 0), (''Home & Garden'', 0),
      (''Insurance'', 0), (''Investments'', 0), (''Gifts & Donations'', 0)]"
    by code_simp
  ultimately show ?thesis by (simp only: categoryScores_scoresAt)
qed

lemma random_llc_scores:
  "categoryScores CATEGORY_KEYWORDS
     \<lparr>input_merchantName = ''Random LLC'',
      input_items = Some [\<lparr>name = ''Widget'', price = Num 5\<rparr>],
      input_description = Some ''''\<rparr>
   = [(''Food & Dining'', 0), (''Transportation'', 0), (''Shopping'', 0),
      (''Entertainment'', 0), (''Healthcare'', 0), (''Travel'', 0), (''Utilities'', 0),
      (''Education'', 0), (''Business'', 0), (''Personal Care'', 0), (''Home & Garden'', 0),
      (''Insurance'', 0), (''Investments'', 0), (''Gifts & Donations'', 0)]"
proof -
  let ?i = "\<lparr>input_merchantName = ''Random LLC'',
             input_items = Some [\<lparr>name = ''Widget'', price = Num 5\<rparr>],
             input_description = Some ''''\<rparr>"
  have "haystack ?i = ''random llc  widget''"
    and "toLowerCase (input_merchantName ?i) = ''random llc''"
    by code_simp+
  moreover have "scoresAt ''random llc  widget'' ''random llc'' =
     [(''Food & Dining'', 0), (''Transportation'', 0), (''Shopping'', 0),
      (''Entertainment'', 0), (''Healthcare'', 0), (''Travel'', 0), (''Utilities'', 0),
      (''Education'', 0), (''Business'', 0), (''Personal Care'', 0), (''Home & Garden'', 0),
      (''Insurance'', 0), (''Investments'', 0), (''Gifts & Donations'', 0)]"
    by code_simp
  ultimately show ?thesis by (simp only: categoryScores_scoresAt)
qed

lemma specified_scores_scoresAt:
  "map (\<lambda>(category, kws). (category, sum_list (map (keywordPoints input) kws)))
     CATEGORY_KEYWORDS
   = scoresAt (searchText input) (toLowerCase (input_merchantName input))"
  using categoryScores_scoresAt [of input, unfolded categoryScores_map [OF distinct_categories]]
  by (simp only: haystack_searchText)

text \<open>
  C3. For every input, the score of every category is the sum over its keywords of the
  points of the specification: 3 for a keyword found in the lower-cased merchant name,
  otherwise 1 for a keyword found in the haystack, otherwise 0; a merchant hit counts 3,
  not 3 + 1. The haystack is the merchant name, the description and the item names,
  separated by spaces and lower-cased (\<open>searchText\<close>). With merchant \<open>Starbucks Coffee\<close>,
  no items and an empty description the category is \<open>Food & Dining\<close>.
\<close>

theorem keyword_points_weighting:
  "categoryScores CATEGORY_KEYWORDS input
     = map (\<lambda>(category, kws). (category, sum_list (map (keywordPoints input) kws)))
         CATEGORY_KEYWORDS
   \<and> categorizeReceipt
         \<lparr>input_merchantName = ''Starbucks Coffee'', input_items = Some [],
          input_description = Some ''''\<rparr>
       = ''Food & Dining''"
proof
  show "categoryScores CATEGORY_KEYWORDS input
     = map (\<lambda>(category, kws). (category, sum_list (map (keywordPoints input) kws)))
         CATEGORY_KEYWORDS"
    by (rule categoryScores_map [OF distinct_categories])
next
  have "bestCategory
     [(''Food & Dining'', 6), (''Transportation'', 0), (''Shopping'', 0),
      (''Entertainment'', 0), (''Healthcare'', 0), (''Travel'', 0), (''Utilities'', 0),
      (''Education'', 0), (''Business'', 0), (''Personal Care'', 0), (''Home & Garden'', 0),
      (''Insurance'', 0), (''Investments'', 0), (''Gifts & Donations'', 0::nat)]
    = Some (''Food & Dining'', 6)"
    by code_simp
  then show "categorizeReceipt
         \<lparr>input_merchantName = ''Starbucks Coffee'', input_items = Some [],
          input_description = Some ''''\<rparr>
       = ''Food & Dining''"
    by (simp add: categorizeReceipt_def starbucks_scores)
qed

text \<open>
  Witness for C3, the scores the scorer computes as the theorem gives them from the
  points of the specification. \<open>Starbucks Coffee\<close>: 6 for \<open>Food & Dining\<close>, as \<open>coffee\<close>
  and \<open>starbucks\<close> are both in the merchant name and count 3 each, not 4. \<open>Joes\<close> with
  the description \<open>pizza and coffee\<close>: 2 for \<open>Food & Dining\<close>, one point for each keyword
  of the description. \<open>Corner Shop\<close> with the items \<open>Coffee Beans\<close> and \<open>Bus Ticket\<close>:
  3 for \<open>Shopping\<close> by the merchant name, and 1 each for \<open>Food & Dining\<close> and
  \<open>Transportation\<close> by the item names.
\<close>

theorem keyword_points_weighting_witness:
  "categoryScores CATEGORY_KEYWORDS
     \<lparr>input_merchantName = ''Starbucks Coffee'', input_items = Some [],
      input_description = Some ''''\<rparr>
   = [(''Food & Dining'', 6), (''Transportation'', 0), (''Shopping'', 0),
      (''Entertainment'', 0), (''Healthcare'', 0), (''Travel'', 0), (''Utilities'', 0),
      (''Education'', 0), (''Business'', 0), (''Personal Care'', 0), (''Home & Garden'', 0),
      (''Insurance'', 0), (''Investments'', 0), (''Gifts & Donations'', 0)]
   \<and> categoryScores CATEGORY_KEYWORDS
     \<lparr>input_merchantName = ''Joes'', input_items = None,
      input_description = Some ''pizza and coffee''\<rparr>
   = [(''Food & Dining'', 2), (''Transportation'', 0), (''Shopping'', 0),
      (''Entertainment'', 0), (''Healthcare'', 0), (''Travel'', 0), (''Utilities'', 0),
      (''Education'', 0), (''Business'', 0), (''Personal Care'', 0), (''Home & Garden'', 0),
      (''Insurance'', 0), (''Investments'', 0), (''Gifts & Donations'', 0)]
   \<and> categoryScores CATEGORY_KEYWORDS
     \<lparr>input_merchantName = ''Corner Shop'',
      input_items = Some [\<lparr>name = ''Coffee Beans'', price = Num 9\<rparr>,
                          \<lparr>name = ''Bus Ticket'', price = Num 2\<rparr>],
      input_description = None\<rparr>
   = [(''Food & Dining'', 1), (''Transportation'', 1), (''Shopping'', 3),
      (''Entertainment'', 0), (''Healthcare'', 0), (''Travel'', 0), (''Utilities'', 0),
      (''Education'', 0), (''Business'', 0), (''Personal Care'', 0), (''Home & Garden'', 0),
      (''Insurance'', 0), (''Investments'', 0), (''Gifts & Donations'', 0)]"
proof (intro conjI)
  let ?i = "\<lparr>input_merchantName = ''Starbucks Coffee'', input_items = Some [],
             input_description = Some ''''\<rparr>"
  have "searchText ?i = ''starbucks coffee ''"
    and "toLowerCase (input_merchantName ?i) = ''starbucks coffee''"
    by code_simp+
  moreover have "scoresAt ''starbucks coffee '' ''starbucks coffee'' =
     [(''Food & Dining'', 6), (''Transportation'', 0), (''Shopping'', 0),
      (''Entertainment'', 0), (''Healthcare'', 0), (''Travel'', 0), (''Utilities'', 0),
      (''Education'', 0), (''Business'', 0), (''Personal Care'', 0), (''Home & Garden'', 0),
      (''Insurance'', 0), (''Investments'', 0), (''Gifts & Donations'', 0)]"
    by code_simp
  ultimately show "categoryScores CATEGORY_KEYWORDS ?i =
     [(''Food & Dining'', 6), (''Transportation'', 0), (''Shopping'', 0),
      (''Entertainment'', 0), (''Healthcare'', 0), (''Travel'', 0), (''Utilities'', 0),
      (''Education'', 0), (''Business'', 0), (''Personal Care'', 0), (''Home & Garden'', 0),
      (''Insurance'', 0), (''Investments'', 0), (''Gifts & Donations'', 0)]"
    using keyword_points_weighting [of ?i] by (simp only: specified_scores_scoresAt)
next
  let ?i = "\<lparr>input_merchantName = ''Joes'', input_items = None,
             input_description = Some ''pizza and coffee''\<rparr>"
  have "searchText ?i = ''joes pizza and coffee''"
    and "toLowerCase (input_merchantName ?i) = ''joes''"
    by code_simp+
  moreover have "scoresAt ''joes pizza and coffee'' ''joes'' =
     [(''Food & Dining'', 2), (''Transportation'', 0), (''Shopping'', 0),
      (''Entertainment'', 0), (''Healthcare'', 0), (''Travel'', 0), (''Utilities'', 0),
      (''Education'', 0), (''Business'', 0), (''Personal Care'', 0), (''Home & Garden'', 0),
      (''Insurance'', 0), (''Investments'', 0), (''Gifts & Donations'', 0)]"
    by code_simp
  ultimately show "categoryScores CATEGORY_KEYWORDS ?i =
     [(''Food & Dining'', 2), (''Transportation'', 0), (''Shopping'', 0),
      (''Entertainment'', 0), (''Healthcare'', 0), (''Travel'', 0), (''Utilities'', 0),
      (''Education'', 0), (''Business'', 0), (''Personal Care'', 0), (''Home & Garden'', 0),
      (''Insurance'', 0), (''Investments'', 0), (''Gifts & Donations'', 0)]"
    using keyword_points_weighting [of ?i] by (simp only: specified_scores_scoresAt)
next
  let ?i = "\<lparr>input_merchantName = ''Corner Shop'',
      input_items = Some [\<lparr>name = ''Coffee Beans'', price = Num 9\<rparr>,
                          \<lparr>name = ''Bus Ticket'', price = Num 2\<rparr>],
      input_description = None\<rparr>"
  have "searchText ?i = ''corner shop  coffee beans bus ticket''"
    and "toLowerCase (input_merchantName ?i) = ''corner shop''"
    by code_simp+
  moreover have "scoresAt ''corner shop  coffee beans bus ticket'' ''corner shop'' =
     [(''Food & Dining'', 1), (''Transportation'', 1), (''Shopping'', 3),
      (''Entertainment'', 0), (''Healthcare'', 0), (''Travel'', 0), (''Utilities'', 0),
      (''Education'', 0), (''Business'', 0), (''Personal Care'', 0), (''Home & Garden'', 0),
      (''Insurance'', 0), (''Investments'', 0), (''Gifts & Donations'', 0)]"
    by code_simp
  ultimately show "categoryScores CATEGORY_KEYWORDS ?i =
     [(''Food & Dining'', 1), (''Transportation'', 1), (''Shopping'', 3),
      (''Entertainment'', 0), (''Healthcare'', 0), (''Travel'', 0), (''Utilities'', 0),
      (''Education'', 0), (''Business'', 0), (''Personal Care'', 0), (''Home & Garden'', 0),
      (''Insurance'', 0), (''Investments'', 0), (''Gifts & Donations'', 0)]"
    using keyword_points_weighting [of ?i] by (simp only: specified_scores_scoresAt)
qed

text \<open>
  C1 as stated fails. For the merchant \<open>Subway\<close> the keyword \<open>subway\<close> gives 3 points
  to \<open>Food & Dining\<close> and 3 points to \<open>Transportation\<close>, every other category scores 0,
  and the scorer returns \<open>Transportation\<close>, the later of the two tied categories, not
  \<open>Food & Dining\<close>, the earlier one.
\<close>

theorem tie_break_earliest_counterexample:
  "categoryScores CATEGORY_KEYWORDS
     \<lparr>input_merchantName = ''Subway'', input_items = None, input_description = None\<rparr>
   = [(''Food & Dining'', 3), (''Transportation'', 3), (''Shopping'', 0),
      (''Entertainment'', 0), (''Healthcare'', 0), (''Travel'', 0), (''Utilities'', 0),
      (''Education'', 0), (''Business'', 0), (''Personal Care'', 0), (''Home & Garden'', 0),
      (''Insurance'', 0), (''Investments'', 0), (''Gifts & Donations'', 0)]
   \<and> categorizeReceipt
         \<lparr>input_merchantName = ''Subway'', input_items = None, input_description = None\<rparr>
       = ''Transportation''"
proof -
  have "bestCategory
     [(''Food & Dining'', 3), (''Transportation'', 3), (''Shopping'', 0),
      (''Entertainment'', 0), (''Healthcare'', 0), (''Travel'', 0), (''Utilities'', 0),
      (''Education'', 0), (''Business'', 0), (''Personal Care'', 0), (''Home & Garden'', 0),
      (''Insurance'', 0), (''Investments'', 0), (''Gifts & Donations'', 0::nat)]
    = Some (''Transportation'', 3)"
    by code_simp
  then show ?thesis by (simp add: categorizeReceipt_def subway_scores)
qed

text \<open>
  C1, amended. The entries of the score table follow the declaration order of the
  keyword table, and for every input the scorer decides on the entry of maximal score
  that is declared last: every entry before it scores at most as much, every entry
  after it scores strictly less. When that maximal score is positive the category of
  this entry is returned, so among tied positive maxima the category declared latest
  wins; when the maximal score is 0 the result is \<open>Other\<close> and no table category.
\<close>

theorem tie_break_latest_declared:
  "map fst (categoryScores CATEGORY_KEYWORDS input) = map fst CATEGORY_KEYWORDS
   \<and> (\<exists>pre best post.
         categoryScores CATEGORY_KEYWORDS input = pre @ best # post
         \<and> (\<forall>e\<in>set pre. snd e \<le> snd best)
         \<and> (\<forall>e\<in>set post. snd e < snd best)
         \<and> categorizeReceipt input = (if 0 < snd best then fst best else ''Other''))"
  using categoryScores_keys categorizeReceipt_last_maximum by blast

text \<open>
  Witness for the amended C1: from the theorem alone, the tie between \<open>Food & Dining\<close>
  and \<open>Transportation\<close> at the merchant \<open>Subway\<close>, both at 3, is decided for
  \<open>Transportation\<close>; and the tie of all fourteen categories at 0 for the merchant
  \<open>Random LLC\<close> gives \<open>Other\<close>, not the category declared last.
\<close>

theorem tie_break_latest_declared_witness:
  "categorizeReceipt
     \<lparr>input_merchantName = ''Subway'', input_items = None, input_description = None\<rparr>
   = ''Transportation''
   \<and> categorizeReceipt
     \<lparr>input_merchantName = ''Random LLC'',
      input_items = Some [\<lparr>name = ''Widget'', price = Num 5\<rparr>],
      input_description = Some ''''\<rparr>
   = ''Other''"
proof
  let ?i = "\<lparr>input_merchantName = ''Subway'', input_items = None, input_description = None\<rparr>"
  let ?post = "[(''Shopping'', 0), (''Entertainment'', 0), (''Healthcare'', 0), (''Travel'', 0),
      (''Utilities'', 0), (''Education'', 0), (''Business'', 0), (''Personal Care'', 0),
      (''Home & Garden'', 0), (''Insurance'', 0), (''Investments'', 0),
      (''Gifts & Donations'', 0::nat)]"
  from tie_break_latest_declared [of ?i] obtain pre best post where
    dec: "categoryScores CATEGORY_KEYWORDS ?i = pre @ best # post"
    and pre: "\<forall>e\<in>set pre. snd e \<le> snd best" and post: "\<forall>e\<in>set post. snd e < snd best"
    and res: "categorizeReceipt ?i = (if 0 < snd best then fst best else ''Other'')"
    by blast
  have eq: "pre @ best # post = [(''Food & Dining'', 3)] @ (''Transportation'', 3) # ?post"
    using dec by (simp add: subway_scores)
  have pre': "\<forall>e\<in>set [(''Food & Dining'', 3::nat)]. snd e \<le> snd (''Transportation'', 3::nat)"
    by simp
  have post': "\<forall>e\<in>set ?post. snd e < snd (''Transportation'', 3::nat)"
    by simp
  have "best = (''Transportation'', 3)"
    by (rule last_maximum_unique [OF eq pre post pre' post'])
  with res show "categorizeReceipt ?i = ''Transportation''" by simp
next
  let ?i = "\<lparr>input_merchantName = ''Random LLC'',
             input_items = Some [\<lparr>name = ''Widget'', price = Num 5\<rparr>],
             input_description = Some ''''\<rparr>"
  from tie_break_latest_declared [of ?i] obtain pre best post where
    dec: "categoryScores CATEGORY_KEYWORDS ?i = pre @ best # post"
    and res: "categorizeReceipt ?i = (if 0 < snd best then fst best else ''Other'')"
    by blast
  have "best \<in> set (categoryScores CATEGORY_KEYWORDS ?i)" unfolding dec by simp
  then have "snd best = 0" unfolding random_llc_scores by auto
  with res show "categorizeReceipt ?i = ''Other''" by simp
qed

text \<open>
  C4. When every category scores 0, which is the case exactly when no keyword of the
  table occurs in the haystack, the scorer returns \<open>Other\<close>; and \<open>Other\<close> is not a key
  of the keyword table.
\<close>

theorem zero_score_falls_back_to_other:
  "((\<forall>e\<in>set (categoryScores CATEGORY_KEYWORDS input). snd e = 0) \<longleftrightarrow>
    (\<forall>(category, kws)\<in>set CATEGORY_KEYWORDS.
       \<forall>k\<in>set kws. \<not> includes_str (haystack input) (toLowerCase k)))
   \<and> ((\<forall>e\<in>set (categoryScores CATEGORY_KEYWORDS input). snd e = 0)
        \<longrightarrow> categorizeReceipt input = ''Other'')
   \<and> ''Other'' \<notin> fst ` set CATEGORY_KEYWORDS"
proof (intro conjI impI)
  show "(\<forall>e\<in>set (categoryScores CATEGORY_KEYWORDS input). snd e = 0) \<longleftrightarrow>
    (\<forall>(category, kws)\<in>set CATEGORY_KEYWORDS.
       \<forall>k\<in>set kws. \<not> includes_str (haystack input) (toLowerCase k))"
    by (rule scores_zero_iff)
next
  assume zero: "\<forall>e\<in>set (categoryScores CATEGORY_KEYWORDS input). snd e = 0"
  obtain pre best post where
    dec: "categoryScores CATEGORY_KEYWORDS input = pre @ best # post"
    and res: "categorizeReceipt input = (if 0 < snd best then fst best else ''Other'')"
    using categorizeReceipt_last_maximum by blast
  from dec have "best \<in> set (categoryScores CATEGORY_KEYWORDS input)" by simp
  with zero have "snd best = 0" by blast
  with res show "categorizeReceipt input = ''Other''" by simp
next
  show "''Other'' \<notin> fst ` set CATEGORY_KEYWORDS"
    by (simp add: CATEGORY_KEYWORDS_def)
qed

text \<open>
  Witness for C4: merchant \<open>Random LLC\<close> with the single item \<open>Widget\<close> and an empty
  description matches no keyword, every score is 0, and the category is \<open>Other\<close>.
\<close>

theorem zero_score_falls_back_to_other_witness:
  "categoryScores CATEGORY_KEYWORDS
     \<lparr>input_merchantName = ''Random LLC'',
      input_items = Some [\<lparr>name = ''Widget'', price = Num 5\<rparr>],
      input_description = Some ''''\<rparr>
   = [(''Food & Dining'', 0), (''Transportation'', 0), (''Shopping'', 0),
      (''Entertainment'', 0), (''Healthcare'', 0), (''Travel'', 0), (''Utilities'', 0),
      (''Education'', 0), (''Business'', 0), (''Personal Care'', 0), (''Home & Garden'', 0),
      (''Insurance'', 0), (''Investments'', 0), (''Gifts & Donations'', 0)]
   \<and> categorizeReceipt
         \<lparr>input_merchantName = ''Random LLC'',
          input_items = Some [\<lparr>name = ''Widget'', price = Num 5\<rparr>],
          input_description = Some ''''\<rparr>
       = ''Other''"
proof -
  let ?i = "\<lparr>input_merchantName = ''Random LLC'',
             input_items = Some [\<lparr>name = ''Widget'', price = Num 5\<rparr>],
             input_description = Some ''''\<rparr>"
  have zero: "\<forall>e\<in>set (categoryScores CATEGORY_KEYWORDS ?i). snd e = 0"
    by (simp add: random_llc_scores)
  with zero_score_falls_back_to_other [of ?i] have "categorizeReceipt ?i = ''Other''"
    by blast
  then show ?thesis by (simp add: random_llc_scores)
qed


section \<open>Numbers and captures\<close>



lemma parseFloat_digit: "isDigit d \<Longrightarrow> \<exists>v. parseFloat (d # s) = Num v"
  by (simp add: parseFloat_def Let_def)

lemma greedyRests_length: "r \<in> set (greedyRests P t) \<Longrightarrow> length r \<le> length t"
  by (induction t) (auto split: if_splits)

text \<open>A match of \<open>\d+\.?\d*\<close> starts with a digit and leaves the captures alone.\<close>

lemma decimal_result:
  assumes "r \<in> set (decimal (c, t))"
  shows "\<exists>d t'. t = d # t' \<and> isDigit d \<and> length (snd r) \<le> length t' \<and> fst r = c"
  using assms
  by (fastforce simp: decimal_def plus_def andThen_def opt_def star_def chr_def
        split: list.splits if_splits dest: greedyRests_length)

lemma group_decimal_result:
  assumes "r \<in> set (group decimal (c, t))"
  shows "\<exists>d u. fst r = c @ [d # u] \<and> isDigit d"
proof -
  from assms obtain r' where r': "r' \<in> set (decimal (c, t))"
    and r: "r = (fst r' @ [take (length t - length (snd r')) t], snd r')"
    by (auto simp: group_def)
  from decimal_result [OF r'] obtain d t' where
    t: "t = d # t'" and d: "isDigit d" and len: "length (snd r') \<le> length t'" and c: "fst r' = c"
    by blast
  from len have "take (length t - length (snd r')) t = d # take (length t' - length (snd r')) t'"
    by (simp add: t Suc_diff_le)
  with r c d show ?thesis by auto
qed

lemma search_Some: "search m s = Some r \<Longrightarrow> \<exists>t. r \<in> set (m ([], t))"
proof (induction s)
  case Nil
  then have "r \<in> set (m ([], []))" by (auto simp: matchAt_def split: list.splits)
  then show ?case by blast
next
  case (Cons a s)
  show ?case
  proof (cases "matchAt m (a # s)")
    case None
    with Cons show ?thesis by simp
  next
    case (Some r')
    with Cons.prems have "r \<in> set (m ([], a # s))"
      by (auto simp: matchAt_def split: list.splits)
    then show ?thesis by blast
  qed
qed

lemma chr_keeps: "r \<in> set (chr P st) \<Longrightarrow> fst r = fst st"
  by (auto simp: chr_def split: list.splits if_splits)

lemma star_keeps: "r \<in> set (star P st) \<Longrightarrow> fst r = fst st"
  by (auto simp: star_def)

lemma opt_chr_keeps: "r \<in> set (opt (chr P) st) \<Longrightarrow> fst r = fst st"
  by (auto simp: opt_def dest: chr_keeps)

lemma lit_ci_keeps: "r \<in> set (lit_ci w st) \<Longrightarrow> fst r = fst st"
proof (induction w arbitrary: st)
  case Nil
  then show ?case by simp
next
  case (Cons c w)
  then obtain st' where "st' \<in> set (chr (\<lambda>x. toLowerChar x = toLowerChar c) st)"
      "r \<in> set (lit_ci w st')"
    by (auto simp: andThen_def)
  then show ?case using Cons.IH chr_keeps by metis
qed

lemma totalRegex_capture:
  assumes "r \<in> set (totalRegex ([], t))"
  shows "\<exists>d u. fst r = [d # u] \<and> isDigit d"
proof -
  from assms obtain s1 s2 s3 where
    s1: "s1 \<in> set (orElse (lit_ci ''total'') (orElse (lit_ci ''amount'') (lit_ci ''sum'')) ([], t))"
    and s2: "s2 \<in> set (star (\<lambda>c. c = CHR '':'' \<or> isSpace c) s1)"
    and s3: "s3 \<in> set (opt (chr (lit CHR ''$'')) s2)"
    and r: "r \<in> set (group decimal s3)"
    by (auto simp: totalRegex_def andThen_def)
  from s1 have "fst s1 = []"
    by (auto simp: orElse_def simp del: lit_ci.simps dest: lit_ci_keeps)
  with s2 have "fst s2 = []" by (auto dest: star_keeps)
  with s3 have "fst s3 = []" by (auto dest: opt_chr_keeps)
  then have "s3 = ([], snd s3)" by (metis prod.collapse)
  with r group_decimal_result [of r "[]" "snd s3"] show ?thesis by auto
qed

lemma amountRegex_capture:
  assumes "r \<in> set (amountRegex ([], t))"
  shows "\<exists>d u. fst r = [d # u] \<and> isDigit d"
proof -
  from assms obtain s1 where s1: "s1 \<in> set (chr (lit CHR ''$'') ([], t))"
    and r: "r \<in> set (group decimal s1)"
    by (auto simp: amountRegex_def andThen_def)
  from s1 have "fst s1 = []" by (auto dest: chr_keeps)
  then have "s1 = ([], snd s1)" by (metis prod.collapse)
  with r group_decimal_result [of r "[]" "snd s1"] show ?thesis by auto
qed

text \<open>The capture of either amount pattern always parses to a number.\<close>

lemma total_capture_number:
  "search totalRegex s = Some (caps, rest) \<Longrightarrow> \<exists>v. parseFloat (cap caps 0) = Num v"
  by (fastforce dest!: search_Some totalRegex_capture simp: cap_def intro: parseFloat_digit)

lemma amount_capture_number:
  "search amountRegex s = Some (caps, rest) \<Longrightarrow> \<exists>v. parseFloat (cap caps 0) = Num v"
  by (fastforce dest!: search_Some amountRegex_capture simp: cap_def intro: parseFloat_digit)

lemma execAll_numbers: "\<exists>vs. execAll s = map Num vs"
proof (induction s rule: execAll.induct)
  case (1 s)
  show ?case
  proof (cases "search amountRegex s")
    case None
    then have "execAll s = map Num []" by (subst execAll.simps) simp
    then show ?thesis by blast
  next
    case (Some st)
    obtain caps rest where st: "st = (caps, rest)" by (cases st)
    from amount_capture_number Some st obtain v where v: "parseFloat (cap caps 0) = Num v"
      by blast
    from "1.IH" [OF Some st [symmetric]] obtain vs where "execAll rest = map Num vs" by blast
    with Some st v have "execAll s = map Num (v # vs)" by (subst execAll.simps) simp
    then show ?thesis by blast
  qed
qed

lemma foldl_max2_Num: "foldl max2 (Num a) (map Num vs) = Num (fold max vs a)"
  by (induction vs arbitrary: a) (simp_all add: max.commute)

lemma Math_max_Num: "vs \<noteq> [] \<Longrightarrow> Math_max (map Num vs) = Num (Max (set vs))"
proof (cases vs)
  case Nil
  then show "vs \<noteq> [] \<Longrightarrow> ?thesis" by simp
next
  case (Cons v vs')
  have "Math_max (map Num vs) = foldl max2 (Num v) (map Num vs')"
    by (simp add: Math_max_def Cons)
  also have "\<dots> = Num (fold max vs' v)" by (rule foldl_max2_Num)
  also have "fold max vs' v = Max (set vs)" unfolding Cons by (rule Max.set_eq_fold [symmetric])
  finally show ?thesis .
qed


section \<open>The fields of the parser\<close>

lemma merchantLoop_find:
  "merchantLoop lines i = find merchantCandidate (drop i (take 3 lines))"
proof (induction lines i rule: merchantLoop.induct)
  case (1 lines i)
  have cand_iff: "merchantCandidate line \<longleftrightarrow>
      \<not> list_ex isDigit line \<and> \<not> includes_str (toLowerCase line) ''receipt'' \<and>
      \<not> includes_str (toLowerCase line) ''tax'' \<and> length line > 3" for line
    by (auto simp: merchantCandidate_def list_ex_iff)
  show ?case
  proof (cases "i < min 3 (length lines)")
    case False
    then have "drop i (take 3 lines) = []" by auto
    moreover from False have "merchantLoop lines i = None"
      by (subst merchantLoop.simps) (simp only: if_False)
    ultimately show ?thesis by simp
  next
    case True
    then have d: "drop i (take 3 lines) = lines ! i # drop (i + 1) (take 3 lines)"
      by (simp add: Cons_nth_drop_Suc [symmetric])
    have unfold: "merchantLoop lines i =
        (if merchantCandidate (lines ! i) then Some (lines ! i) else merchantLoop lines (i + 1))"
      using True by (subst merchantLoop.simps) (simp only: if_True Let_def cand_iff)
    show ?thesis
    proof (cases "merchantCandidate (lines ! i)")
      case cand: True
      then show ?thesis by (simp add: unfold d)
    next
      case cand: False
      then have "\<not> (\<not> list_ex isDigit (lines ! i) \<and>
            \<not> includes_str (toLowerCase (lines ! i)) ''receipt'' \<and>
            \<not> includes_str (toLowerCase (lines ! i)) ''tax'' \<and> length (lines ! i) > 3)"
        using cand_iff by blast
      from "1.IH" [OF True refl this]
      have "merchantLoop lines (i + 1) = find merchantCandidate (drop (i + 1) (take 3 lines))" .
      with cand show ?thesis by (simp add: unfold d)
    qed
  qed
qed

lemma totalAmount_cases:
  "(case search totalRegex text of
      Some (caps, rest) \<Rightarrow>
        \<exists>v. parseFloat (cap caps 0) = Num v \<and> totalAmount (parseReceiptText nd text) = Some (Num v)
    | None \<Rightarrow>
        \<exists>vs. execAll text = map Num vs \<and>
          totalAmount (parseReceiptText nd text)
            = (if vs = [] then None else Some (Num (Max (set vs)))))"
proof (cases "search totalRegex text")
  case None
  obtain vs where vs: "execAll text = map Num vs" using execAll_numbers by blast
  have "totalAmount (parseReceiptText nd text)
          = (if vs = [] then None else Some (Num (Max (set vs))))"
    by (simp add: parseReceiptText_def Let_def None vs Math_max_Num)
  with None vs show ?thesis by auto
next
  case (Some st)
  obtain caps rest where st: "st = (caps, rest)" by (cases st)
  from total_capture_number Some st obtain v where v: "parseFloat (cap caps 0) = Num v"
    by blast
  then show ?thesis by (simp add: parseReceiptText_def Let_def Some st)
qed






lemma date_first_match:
  "date (parseReceiptText nd text)
     = (case search dateRegex text of None \<Rightarrow> None | Some (caps, rest) \<Rightarrow> nd (cap caps 0))"
  by (simp add: parseReceiptText_def Let_def split: option.splits)

lemma items_nonempty:
  "items (parseReceiptText nd text)
     = (if parseLineItems (normalizedLines text) = [] then None
        else Some (parseLineItems (normalizedLines text)))"
  by (simp add: parseReceiptText_def Let_def)


section \<open>The lines of a text\<close>

lemma split_nonempty: "split sep s \<noteq> []"
  by (induction s) (auto split: list.splits)

lemma split_free: "l \<in> set (split sep s) \<Longrightarrow> sep \<notin> set l"
proof (induction s arbitrary: l)
  case Nil
  then show ?case by simp
next
  case (Cons c cs)
  show ?case
  proof (cases "c = sep")
    case True
    with Cons show ?thesis by auto
  next
    case False
    obtain m ms where ms: "split sep cs = m # ms"
      using split_nonempty [of sep cs] by (cases "split sep cs") auto
    with Cons.prems False have "l = c # m \<or> l \<in> set ms" by simp
    with Cons.IH ms False show ?thesis by auto
  qed
qed

lemma linesText_Cons: "linesText (l # m # ls) = l @ CHR 0x0A # linesText (m # ls)"
  by (simp add: linesText_def)

lemma linesText_split: "linesText (split (CHR 0x0A) s) = s"
proof (induction s)
  case Nil
  show ?case by (simp add: linesText_def)
next
  case (Cons c cs)
  obtain m ms where ms: "split (CHR 0x0A) cs = m # ms"
    using split_nonempty [of "CHR 0x0A" cs] by (cases "split (CHR 0x0A) cs") auto
  with Cons show ?case by (auto simp: linesText_def)
qed

lemma split_line: "sep \<notin> set l \<Longrightarrow> split sep (l @ sep # s) = l # split sep s"
  by (induction l) auto

lemma split_last: "sep \<notin> set l \<Longrightarrow> split sep l = [l]"
  by (induction l) auto

lemma split_linesText:
  "ls \<noteq> [] \<Longrightarrow> \<forall>l\<in>set ls. CHR 0x0A \<notin> set l \<Longrightarrow> split (CHR 0x0A) (linesText ls) = ls"
proof (induction ls)
  case Nil
  then show ?case by simp
next
  case (Cons l ls)
  show ?case
  proof (cases ls)
    case Nil
    with Cons.prems show ?thesis by (simp add: linesText_def split_last)
  next
    case (Cons m ms)
    have "split (CHR 0x0A) (linesText ls) = ls" using Cons.IH Cons.prems Cons by simp
    then show ?thesis using Cons.prems unfolding Cons linesText_Cons
      by (simp add: split_line)
  qed
qed

text \<open>Stripping a line is trimming it, and the blank lines are those that trim to nothing.\<close>

lemma drop_trailing:
  "rev (dropWhile P (rev xs)) = take (length xs - length (takeWhile P (rev xs))) xs"
proof -
  have "rev xs = takeWhile P (rev xs) @ dropWhile P (rev xs)" by simp
  then have "xs = rev (dropWhile P (rev xs)) @ rev (takeWhile P (rev xs))"
    by (metis rev_append rev_rev_ident)
  then have "take (length (rev (dropWhile P (rev xs)))) xs = rev (dropWhile P (rev xs))"
    by (metis append_eq_conv_conj)
  moreover have "length (takeWhile P (rev xs)) + length (dropWhile P (rev xs)) = length xs"
    by (metis length_append length_rev takeWhile_dropWhile_id)
  then have "length (rev (dropWhile P (rev xs))) = length xs - length (takeWhile P (rev xs))"
    by simp
  ultimately show ?thesis by simp
qed

lemma blank_trim: "trim l = [] \<longleftrightarrow> blank l"
proof (cases "dropWhile isSpace l")
  case Nil
  then have "\<forall>c\<in>set l. isSpace c" by (simp only: dropWhile_eq_Nil_conv)
  then show ?thesis unfolding trim_def Nil by (simp add: blank_def)
next
  case (Cons x c)
  have nx: "\<not> isSpace x" using Cons by (metis dropWhile_eq_Cons_conv)
  have "x \<in> set l" using Cons by (metis list.set_intros(1) set_dropWhileD)
  with nx have "\<not> blank l" by (auto simp: blank_def)
  moreover have "dropWhile isSpace (rev (x # c)) \<noteq> []"
    using nx by (auto simp: dropWhile_eq_Nil_conv)
  ultimately show ?thesis unfolding trim_def Cons by simp
qed

lemma trim_strip: "trim l = strip l"
proof (cases "dropWhile isSpace l")
  case Nil
  then have all: "\<forall>c\<in>set l. isSpace c" by (simp only: dropWhile_eq_Nil_conv)
  then have tw: "takeWhile isSpace (rev l) = rev l" by (simp add: takeWhile_eq_all_conv)
  have "strip l = []" unfolding strip_def tw by simp
  moreover have "trim l = []" using all by (simp add: blank_trim blank_def)
  ultimately show ?thesis by simp
next
  case (Cons x c)
  have nx: "\<not> isSpace x" using Cons by (metis dropWhile_eq_Cons_conv)
  define a where "a = takeWhile isSpace l"
  have l: "l = a @ x # c" unfolding a_def using Cons by (metis takeWhile_dropWhile_id)
  have a: "\<forall>y\<in>set a. isSpace y" unfolding a_def by (auto dest: set_takeWhileD)
  define t where "t = rev (dropWhile isSpace (rev (x # c)))"
  have trim: "trim l = t" unfolding trim_def Cons t_def ..
  have "\<exists>zs. dropWhile isSpace (rev c @ [x]) = zs @ [x]"
  proof (cases "\<forall>y\<in>set (rev c). isSpace y")
    case True
    have "dropWhile isSpace (rev c @ [x]) = dropWhile isSpace [x]"
      by (rule dropWhile_append2) (use True in blast)
    then have "dropWhile isSpace (rev c @ [x]) = [] @ [x]" using nx by simp
    then show ?thesis by blast
  next
    case False
    then have "dropWhile isSpace (rev c @ [x]) = dropWhile isSpace (rev c) @ [x]"
      by (auto simp: dropWhile_append1)
    then show ?thesis by blast
  qed
  then obtain zs where zs: "dropWhile isSpace (rev (x # c)) = zs @ [x]" by auto
  then have t: "t = x # rev zs" unfolding t_def by simp
  have "dropWhile isSpace (rev (x # c) @ rev a) = dropWhile isSpace (rev (x # c)) @ rev a"
    by (rule dropWhile_append1 [of x]) (use nx in simp_all)
  then have "dropWhile isSpace (rev l) = dropWhile isSpace (rev (x # c)) @ rev a"
    unfolding l by simp
  then have "rev (dropWhile isSpace (rev l)) = a @ t" unfolding t_def by simp
  then have "strip l = dropWhile isSpace (a @ t)"
    unfolding strip_def drop_trailing [symmetric] by simp
  also have "\<dots> = dropWhile isSpace t" using a by (simp add: dropWhile_append2)
  also have "\<dots> = t" unfolding t using nx by simp
  finally show ?thesis using trim by simp
qed

lemma normalizedLines_linesText:
  assumes "ls \<noteq> []" "\<forall>l\<in>set ls. CHR 0x0A \<notin> set l"
  shows "normalizedLines (linesText ls) = map strip (filter (\<lambda>l. \<not> blank l) ls)"
proof -
  have "normalizedLines (linesText ls) = filter (\<lambda>line. line \<noteq> []) (map trim ls)"
    unfolding normalizedLines_def split_linesText [OF assms] ..
  also have "\<dots> = map trim (filter (\<lambda>l. trim l \<noteq> []) ls)"
    by (simp add: filter_map comp_def)
  also have "\<dots> = map trim (filter (\<lambda>l. \<not> blank l) ls)"
    by (simp only: blank_trim)
  also have "\<dots> = map strip (filter (\<lambda>l. \<not> blank l) ls)"
    by (rule map_cong [OF refl]) (rule trim_strip)
  finally show ?thesis .
qed



section \<open>What the patterns match\<close>

lemma acceptsD: "accepts m W \<Longrightarrow> r \<in> set (m (c, s)) \<longleftrightarrow> fst r = c \<and> (\<exists>w\<in>W. s = w @ snd r)"
  unfolding accepts_def by blast

lemma accepts_chr: "accepts (chr P) (chars P 1 1)"
  unfolding accepts_def chars_def chr_def
  by (auto split: list.splits simp: length_Suc_conv le_Suc_eq)

lemma accepts_andThen:
  assumes "accepts m1 W1" "accepts m2 W2"
  shows "accepts (andThen m1 m2) (conc W1 W2)"
  unfolding accepts_def
proof (intro allI iffI)
  fix c :: "string list" and s :: string and r :: mstate
  assume "r \<in> set (andThen m1 m2 (c, s))"
  then obtain mid where mid: "mid \<in> set (m1 (c, s))" and r: "r \<in> set (m2 mid)"
    by (auto simp: andThen_def)
  from mid acceptsD [OF assms(1), of mid c s]
  obtain u where u: "fst mid = c" "u \<in> W1" "s = u @ snd mid" by blast
  from r acceptsD [OF assms(2), of r "fst mid" "snd mid"]
  obtain v where v: "fst r = fst mid" "v \<in> W2" "snd mid = v @ snd r" by auto
  from u v have "u @ v \<in> conc W1 W2" "s = (u @ v) @ snd r" by (auto simp: conc_def)
  with u v show "fst r = c \<and> (\<exists>w\<in>conc W1 W2. s = w @ snd r)" by metis
next
  fix c :: "string list" and s :: string and r :: mstate
  assume "fst r = c \<and> (\<exists>w\<in>conc W1 W2. s = w @ snd r)"
  then obtain u v where uv: "fst r = c" "u \<in> W1" "v \<in> W2" "s = u @ v @ snd r"
    by (auto simp: conc_def)
  then have "(c, v @ snd r) \<in> set (m1 (c, s))"
    using acceptsD [OF assms(1), of "(c, v @ snd r)" c s] by auto
  moreover have "r \<in> set (m2 (c, v @ snd r))"
    using uv acceptsD [OF assms(2), of r c "v @ snd r"] by auto
  ultimately show "r \<in> set (andThen m1 m2 (c, s))"
    by (auto simp: andThen_def)
qed

lemma accepts_opt:
  assumes "accepts m W"
  shows "accepts (opt m) (insert [] W)"
  unfolding accepts_def
proof (intro allI)
  fix c :: "string list" and s :: string and r :: mstate
  have "r \<in> set (opt m (c, s)) \<longleftrightarrow> r \<in> set (m (c, s)) \<or> r = (c, s)"
    by (auto simp: opt_def)
  also have "\<dots> \<longleftrightarrow> (fst r = c \<and> (\<exists>w\<in>W. s = w @ snd r)) \<or> (fst r = c \<and> s = [] @ snd r)"
    using acceptsD [OF assms, of r c s] by (cases r) auto
  also have "\<dots> \<longleftrightarrow> fst r = c \<and> (\<exists>w\<in>insert [] W. s = w @ snd r)"
    by auto
  finally show "r \<in> set (opt m (c, s)) \<longleftrightarrow> fst r = c \<and> (\<exists>w\<in>insert [] W. s = w @ snd r)" .
qed

lemma accepts_orElse: "accepts m1 W1 \<Longrightarrow> accepts m2 W2 \<Longrightarrow> accepts (orElse m1 m2) (W1 \<union> W2)"
  unfolding accepts_def orElse_def by auto

lemma greedyRests_iff: "r \<in> set (greedyRests P s) \<longleftrightarrow> (\<exists>w. s = w @ r \<and> (\<forall>c\<in>set w. P c))"
proof (induction s)
  case Nil
  then show ?case by auto
next
  case (Cons a s)
  show ?case
  proof
    assume "r \<in> set (greedyRests P (a # s))"
    then consider "P a" "r \<in> set (greedyRests P s)" | "r = a # s"
      by (auto split: if_splits)
    then show "\<exists>w. a # s = w @ r \<and> (\<forall>c\<in>set w. P c)"
    proof cases
      case 1
      with Cons obtain w where "s = w @ r" "\<forall>c\<in>set w. P c" by auto
      with 1 have "a # s = (a # w) @ r \<and> (\<forall>c\<in>set (a # w). P c)" by simp
      then show ?thesis by blast
    next
      case 2
      then have "a # s = [] @ r \<and> (\<forall>c\<in>set []. P c)" by simp
      then show ?thesis by blast
    qed
  next
    assume "\<exists>w. a # s = w @ r \<and> (\<forall>c\<in>set w. P c)"
    then obtain w where w: "a # s = w @ r" "\<forall>c\<in>set w. P c" by blast
    show "r \<in> set (greedyRests P (a # s))"
    proof (cases w)
      case Nil
      with w show ?thesis by auto
    next
      case (Cons x xs)
      with w have "P a" "s = xs @ r" "\<forall>c\<in>set xs. P c" by auto
      with Cons.IH show ?thesis by auto
    qed
  qed
qed

lemma accepts_star: "accepts (star P) (charsFrom P 0)"
  unfolding accepts_def star_def charsFrom_def
  by (auto simp: greedyRests_iff)

lemma conc_chars_charsFrom:
  "conc (chars P (Suc 0) (Suc 0)) (charsFrom P n) = charsFrom P (Suc n)"
proof
  show "conc (chars P (Suc 0) (Suc 0)) (charsFrom P n) \<subseteq> charsFrom P (Suc n)"
    by (auto simp: conc_def chars_def charsFrom_def)
next
  show "charsFrom P (Suc n) \<subseteq> conc (chars P (Suc 0) (Suc 0)) (charsFrom P n)"
  proof
    fix w assume "w \<in> charsFrom P (Suc n)"
    then obtain x xs where w: "w = [x] @ xs" and "P x" "n \<le> length xs" "\<forall>c\<in>set xs. P c"
      by (cases w) (auto simp: charsFrom_def)
    then have "[x] \<in> chars P (Suc 0) (Suc 0)" "xs \<in> charsFrom P n"
      by (simp_all add: chars_def charsFrom_def)
    then show "w \<in> conc (chars P (Suc 0) (Suc 0)) (charsFrom P n)"
      unfolding conc_def w by blast
  qed
qed

lemma accepts_plus: "accepts (plus P) (charsFrom P 1)"
  unfolding plus_def
  using accepts_andThen [OF accepts_chr accepts_star, of P P]
  by (simp add: conc_chars_charsFrom)

lemma conc_chars:
  assumes "a \<le> b" "c \<le> d"
  shows "conc (chars P a b) (chars P c d) = chars P (a + c) (b + d)"
proof
  show "conc (chars P a b) (chars P c d) \<subseteq> chars P (a + c) (b + d)"
    by (auto simp: conc_def chars_def)
next
  show "chars P (a + c) (b + d) \<subseteq> conc (chars P a b) (chars P c d)"
  proof
    fix w assume w: "w \<in> chars P (a + c) (b + d)"
    define k where "k = max a (length w - d)"
    have "w = take k w @ drop k w" by simp
    moreover have "take k w \<in> chars P a b"
      using w assms unfolding chars_def k_def by (auto dest: in_set_takeD)
    moreover have "drop k w \<in> chars P c d"
      using w assms unfolding chars_def k_def by (auto dest: in_set_dropD)
    ultimately show "w \<in> conc (chars P a b) (chars P c d)"
      unfolding conc_def by blast
  qed
qed

lemma insert_Nil_chars: "insert [] (chars P 1 n) = chars P 0 n"
  by (auto simp: chars_def Suc_le_eq)

lemma accepts_opt_chr: "accepts (opt (chr P)) (chars P 0 1)"
  using accepts_opt [OF accepts_chr, of P] by (simp only: insert_Nil_chars)

lemma conc_assoc: "conc (conc A B) C = conc A (conc B C)"
  unfolding conc_def
  by (auto, metis append.assoc, metis append.assoc)

lemma conc_Nil_right: "conc A {[]} = A"
  by (auto simp: conc_def)

lemma accepts_seqs_Nil: "accepts (seqs []) {[]}"
  by (auto simp: accepts_def)

lemma accepts_seqs_Cons:
  "accepts m W \<Longrightarrow> accepts (seqs ms) V \<Longrightarrow> accepts (seqs (m # ms)) (conc W V)"
  by (simp add: accepts_andThen)

lemma conc_chars_1_2: "conc (chars P 1 1) (chars P 0 1) = chars P 1 2"
  using conc_chars [of 1 1 0 1 P] by (simp add: eval_nat_numeral)

lemma conc_chars_2_4: "conc (chars P 1 1) (conc (chars P 1 1) (chars P 0 2)) = chars P 2 4"
  using conc_chars [of 1 1 0 2 P] conc_chars [of 1 1 1 3 P] by (simp add: eval_nat_numeral)

lemma accepts_digits12: "accepts (seqs [chr P, opt (chr P)]) (chars P 1 2)"
proof -
  have "accepts (seqs [chr P, opt (chr P)]) (conc (chars P 1 1) (conc (chars P 0 1) {[]}))"
    by (intro accepts_seqs_Cons accepts_seqs_Nil accepts_chr accepts_opt_chr)
  then show ?thesis by (simp only: conc_Nil_right conc_chars_1_2)
qed

lemma accepts_digits24:
  "accepts (seqs [chr P, chr P, opt (seqs [chr P, opt (chr P)])]) (chars P 2 4)"
proof -
  have "accepts (seqs [chr P, chr P, opt (seqs [chr P, opt (chr P)])])
          (conc (chars P 1 1) (conc (chars P 1 1) (conc (insert [] (chars P 1 2)) {[]})))"
    by (intro accepts_seqs_Cons accepts_seqs_Nil accepts_chr accepts_opt accepts_digits12)
  then show ?thesis by (simp only: conc_Nil_right insert_Nil_chars conc_chars_2_4)
qed

lemma conc_chars_1_2_left: "conc (chars P 1 1) (conc (chars P 0 1) X) = conc (chars P 1 2) X"
  by (simp only: conc_assoc [symmetric] conc_chars_1_2)

lemma accepts_date_body:
  "accepts (seqs
     [chr isDigit, opt (chr isDigit),
      chr dateSep,
      chr isDigit, opt (chr isDigit),
      chr dateSep,
      chr isDigit, chr isDigit, opt (seqs [chr isDigit, opt (chr isDigit)])]) DATE"
proof -
  have "accepts (seqs
     [chr isDigit, opt (chr isDigit),
      chr dateSep,
      chr isDigit, opt (chr isDigit),
      chr dateSep,
      chr isDigit, chr isDigit, opt (seqs [chr isDigit, opt (chr isDigit)])])
    (conc (chars isDigit 1 1) (conc (chars isDigit 0 1)
      (conc (chars dateSep 1 1)
        (conc (chars isDigit 1 1) (conc (chars isDigit 0 1)
          (conc (chars dateSep 1 1)
            (conc (chars isDigit 1 1) (conc (chars isDigit 1 1)
              (conc (insert [] (chars isDigit 1 2)) {[]})))))))))"
    by (intro accepts_seqs_Cons accepts_seqs_Nil accepts_chr accepts_opt_chr accepts_opt
          accepts_digits12)
  then show ?thesis
    by (simp only: conc_Nil_right insert_Nil_chars conc_chars_2_4 conc_chars_1_2_left DATE_def)
qed

lemma andThen_set: "set (andThen m n st) = (\<Union>mid\<in>set (m st). set (n mid))"
  by (auto simp: andThen_def)

lemma accepts_group:
  assumes "accepts m W"
  shows "r \<in> set (group m (c, s)) \<longleftrightarrow> (\<exists>w\<in>W. s = w @ snd r \<and> fst r = c @ [w])"
proof
  assume "r \<in> set (group m (c, s))"
  then obtain r' where r': "r' \<in> set (m (c, s))"
    and r: "r = (fst r' @ [take (length s - length (snd r')) s], snd r')"
    by (auto simp: group_def)
  from r' acceptsD [OF assms, of r' c s] obtain w where "fst r' = c" "w \<in> W" "s = w @ snd r'"
    by blast
  with r show "\<exists>w\<in>W. s = w @ snd r \<and> fst r = c @ [w]" by auto
next
  assume "\<exists>w\<in>W. s = w @ snd r \<and> fst r = c @ [w]"
  then obtain w where w: "w \<in> W" "s = w @ snd r" "fst r = c @ [w]" by blast
  then have "(c, snd r) \<in> set (m (c, s))" using acceptsD [OF assms, of "(c, snd r)" c s] by auto
  moreover have "r = (c @ [take (length s - length (snd r)) s], snd r)"
    using w by (cases r) auto
  ultimately show "r \<in> set (group m (c, s))" by (force simp: group_def)
qed

lemma dateRegex_iff:
  "r \<in> set (dateRegex (c, s)) \<longleftrightarrow> (\<exists>w\<in>DATE. s = w @ snd r \<and> fst r = c @ [w])"
  unfolding dateRegex_def by (rule accepts_group [OF accepts_date_body])

lemma accepts_decimal: "accepts decimal DECIMAL"
  unfolding decimal_def DECIMAL_def
proof -
  have "accepts (seqs [plus isDigit, opt (chr (lit CHR ''.'')), star isDigit])
          (conc (charsFrom isDigit 1) (conc (chars (lit CHR ''.'') 0 1) (conc (charsFrom isDigit 0) {[]})))"
    by (intro accepts_seqs_Cons accepts_seqs_Nil accepts_plus accepts_opt_chr accepts_star)
  then show "accepts (seqs [plus isDigit, opt (chr (lit CHR ''.'')), star isDigit])
          (conc (charsFrom isDigit 1) (conc (chars (lit CHR ''.'') 0 1) (charsFrom isDigit 0)))"
    by (simp only: conc_Nil_right)
qed

lemma accepts_lit_ci: "accepts (lit_ci w) {v. toLowerCase v = toLowerCase w}"
proof (induction w)
  case Nil
  show ?case by (auto simp: accepts_def toLowerCase_def)
next
  case (Cons c w)
  have "conc (chars (\<lambda>x. toLowerChar x = toLowerChar c) 1 1) {v. toLowerCase v = toLowerCase w}
          = {v. toLowerCase v = toLowerCase (c # w)}"
  proof
    show "conc (chars (\<lambda>x. toLowerChar x = toLowerChar c) 1 1) {v. toLowerCase v = toLowerCase w}
            \<subseteq> {v. toLowerCase v = toLowerCase (c # w)}"
      by (auto simp: conc_def chars_def toLowerCase_def length_Suc_conv le_Suc_eq)
  next
    show "{v. toLowerCase v = toLowerCase (c # w)}
            \<subseteq> conc (chars (\<lambda>x. toLowerChar x = toLowerChar c) 1 1) {v. toLowerCase v = toLowerCase w}"
    proof
      fix v assume "v \<in> {v. toLowerCase v = toLowerCase (c # w)}"
      then obtain x xs where v: "v = [x] @ xs" and "toLowerChar x = toLowerChar c"
          "toLowerCase xs = toLowerCase w"
        by (cases v) (auto simp: toLowerCase_def)
      then have "[x] \<in> chars (\<lambda>x. toLowerChar x = toLowerChar c) 1 1"
          "xs \<in> {v. toLowerCase v = toLowerCase w}"
        by (simp_all add: chars_def)
      then show "v \<in> conc (chars (\<lambda>x. toLowerChar x = toLowerChar c) 1 1)
                         {v. toLowerCase v = toLowerCase w}"
        unfolding conc_def v by blast
    qed
  qed
  with accepts_andThen [OF accepts_chr Cons.IH, of "\<lambda>x. toLowerChar x = toLowerChar c"]
  show ?case by simp
qed

lemma toLowerCase_keyword:
  "toLowerCase ''total'' = ''total''" "toLowerCase ''amount'' = ''amount''"
  "toLowerCase ''sum'' = ''sum''"
  by code_simp+

lemma accepts_label:
  "accepts (orElse (lit_ci ''total'') (orElse (lit_ci ''amount'') (lit_ci ''sum''))) LABEL"
proof -
  have "LABEL = {v. toLowerCase v = toLowerCase ''total''}
           \<union> ({v. toLowerCase v = toLowerCase ''amount''} \<union> {v. toLowerCase v = toLowerCase ''sum''})"
    by (auto simp: LABEL_def toLowerCase_keyword)
  then show ?thesis
    by (elim ssubst) (intro accepts_orElse accepts_lit_ci)
qed

lemma accepts_Bex:
  assumes "accepts m W"
  shows "(\<exists>mid\<in>set (m (c, s)). Q mid) \<longleftrightarrow> (\<exists>u\<in>W. \<exists>t. s = u @ t \<and> Q (c, t))"
proof
  assume "\<exists>mid\<in>set (m (c, s)). Q mid"
  then obtain mid where mid: "mid \<in> set (m (c, s))" and q: "Q mid" by blast
  from mid acceptsD [OF assms, of mid c s] obtain u where "fst mid = c" "u \<in> W" "s = u @ snd mid"
    by blast
  moreover from this q have "Q (c, snd mid)" by (cases mid) simp
  ultimately show "\<exists>u\<in>W. \<exists>t. s = u @ t \<and> Q (c, t)" by blast
next
  assume "\<exists>u\<in>W. \<exists>t. s = u @ t \<and> Q (c, t)"
  then obtain u t where "u \<in> W" "s = u @ t" "Q (c, t)" by blast
  moreover from this have "(c, t) \<in> set (m (c, s))"
    using acceptsD [OF assms, of "(c, t)" c s] by auto
  ultimately show "\<exists>mid\<in>set (m (c, s)). Q mid" by blast
qed

lemma totalRegex_iff:
  "r \<in> set (totalRegex (c, s)) \<longleftrightarrow>
     (\<exists>u\<in>LABEL_PREFIX. \<exists>w\<in>DECIMAL. s = u @ w @ snd r \<and> fst r = c @ [w])"
proof -
  let ?label = "orElse (lit_ci ''total'') (orElse (lit_ci ''amount'') (lit_ci ''sum''))"
  let ?seps = "star (\<lambda>c. c = CHR '':'' \<or> isSpace c)"
  let ?dollar = "opt (chr (lit CHR ''$''))"
  have pre: "accepts (andThen ?label (andThen ?seps ?dollar)) LABEL_PREFIX"
    unfolding LABEL_PREFIX_def
    by (intro accepts_andThen accepts_label accepts_star accepts_opt_chr)
  have "r \<in> set (totalRegex (c, s)) \<longleftrightarrow>
          (\<exists>m1\<in>set (?label (c, s)). \<exists>m2\<in>set (?seps m1). \<exists>m3\<in>set (?dollar m2).
              r \<in> set (group decimal m3))"
    unfolding totalRegex_def by (simp add: andThen_set del: lit_ci.simps)
  also have "\<dots> \<longleftrightarrow> (\<exists>m3\<in>set (andThen ?label (andThen ?seps ?dollar) (c, s)).
              r \<in> set (group decimal m3))"
    by (simp add: andThen_set del: lit_ci.simps)
  also have "\<dots> \<longleftrightarrow> (\<exists>u\<in>LABEL_PREFIX. \<exists>t. s = u @ t \<and> r \<in> set (group decimal (c, t)))"
    by (rule accepts_Bex [OF pre])
  also have "\<dots> \<longleftrightarrow> (\<exists>u\<in>LABEL_PREFIX. \<exists>w\<in>DECIMAL. s = u @ w @ snd r \<and> fst r = c @ [w])"
    unfolding accepts_group [OF accepts_decimal] by blast
  finally show ?thesis .
qed

lemma amountRegex_iff:
  "r \<in> set (amountRegex (c, s)) \<longleftrightarrow>
     (\<exists>w\<in>DECIMAL. s = CHR ''$'' # w @ snd r \<and> fst r = c @ [w])"
proof -
  have "r \<in> set (amountRegex (c, s)) \<longleftrightarrow>
          (\<exists>t. s = CHR ''$'' # t \<and> r \<in> set (group decimal (c, t)))"
    by (auto simp: amountRegex_def andThen_def chr_def lit_def split: list.splits)
  then show ?thesis by (auto simp: accepts_group [OF accepts_decimal])
qed

lemma matchAt_None_iff: "matchAt m t = None \<longleftrightarrow> m ([], t) = []"
  by (simp add: matchAt_def split: list.splits)

lemma matchAt_Some_mem: "matchAt m t = Some r \<Longrightarrow> r \<in> set (m ([], t))"
  by (auto simp: matchAt_def split: list.splits)

lemma search_None_iff: "search m s = None \<longleftrightarrow> (\<forall>pre t. s = pre @ t \<longrightarrow> matchAt m t = None)"
proof (induction s)
  case Nil
  then show ?case by simp
next
  case (Cons a s)
  show ?case
  proof
    assume none: "search m (a # s) = None"
    then have here: "matchAt m (a # s) = None" and later: "search m s = None"
      by (auto split: option.splits)
    show "\<forall>pre t. a # s = pre @ t \<longrightarrow> matchAt m t = None"
    proof (intro allI impI)
      fix pre t assume eq: "a # s = pre @ t"
      show "matchAt m t = None"
      proof (cases pre)
        case Nil
        with eq here show ?thesis by simp
      next
        case (Cons x xs)
        with eq have "s = xs @ t" by simp
        with later Cons.IH show ?thesis by blast
      qed
    qed
  next
    assume all: "\<forall>pre t. a # s = pre @ t \<longrightarrow> matchAt m t = None"
    then have "matchAt m (a # s) = None" by (metis append_Nil)
    moreover have "search m s = None"
      using all Cons.IH by (metis append_Cons)
    ultimately show "search m (a # s) = None" by simp
  qed
qed

lemma search_Some_first:
  "search m s = Some r \<Longrightarrow>
   \<exists>pre t. s = pre @ t \<and> matchAt m t = Some r \<and>
     (\<forall>pre' t'. s = pre' @ t' \<and> length pre' < length pre \<longrightarrow> matchAt m t' = None)"
proof (induction s)
  case Nil
  show ?case
    by (rule exI [of _ "[]"], rule exI [of _ "[]"]) (use Nil in simp)
next
  case (Cons a s)
  show ?case
  proof (cases "matchAt m (a # s)")
    case (Some r')
    with Cons.prems have "r' = r" by simp
    with Some show ?thesis
      by (intro exI [of _ "[]"] exI [of _ "a # s"]) simp
  next
    case None
    with Cons.prems have "search m s = Some r" by simp
    from Cons.IH [OF this] obtain pre t where s: "s = pre @ t" and at: "matchAt m t = Some r"
      and first: "\<forall>pre' t'. s = pre' @ t' \<and> length pre' < length pre \<longrightarrow> matchAt m t' = None"
      by blast
    have earlier: "\<forall>pre' t'. a # s = pre' @ t' \<and> length pre' < length (a # pre)
                     \<longrightarrow> matchAt m t' = None"
    proof (intro allI impI)
      fix pre' t' assume h: "a # s = pre' @ t' \<and> length pre' < length (a # pre)"
      show "matchAt m t' = None"
      proof (cases pre')
        case Nil
        with h None show ?thesis by simp
      next
        case (Cons x xs)
        with h have "s = xs @ t'" "length xs < length pre" by auto
        then show ?thesis using first [rule_format, of xs t'] by simp
      qed
    qed
    show ?thesis
      by (intro exI [of _ "a # pre"] exI [of _ t]) (use s at earlier in simp)
  qed
qed

text \<open>A pattern whose matches at a position are the prefixes in \<open>W\<close>: searching finds the leftmost occurrence.\<close>

lemma search_None_occurs:
  assumes "\<And>t. m ([], t) \<noteq> [] \<longleftrightarrow> (\<exists>w\<in>W. \<exists>rest. t = w @ rest)"
  shows "search m text = None \<longleftrightarrow> \<not> occurs W text"
proof -
  have "matchAt m t = None \<longleftrightarrow> \<not> (\<exists>w\<in>W. \<exists>rest. t = w @ rest)" for t
    unfolding matchAt_None_iff using assms [of t] by blast
  then show ?thesis unfolding search_None_iff occurs_def by blast
qed

lemma search_Some_leftmost:
  assumes "\<And>t. m ([], t) \<noteq> [] \<longleftrightarrow> (\<exists>w\<in>W. \<exists>rest. t = w @ rest)"
    and "search m text = Some r"
  shows "\<exists>pre t. text = pre @ t \<and> r \<in> set (m ([], t)) \<and>
           (\<forall>pre' w' rest'. text = pre' @ w' @ rest' \<and> w' \<in> W \<longrightarrow> length pre \<le> length pre')"
proof -
  from search_Some_first [OF assms(2)] obtain pre t where t: "text = pre @ t"
    and at: "matchAt m t = Some r"
    and first: "\<forall>pre' t'. text = pre' @ t' \<and> length pre' < length pre \<longrightarrow> matchAt m t' = None"
    by blast
  have "length pre \<le> length pre'" if "text = pre' @ w' @ rest'" "w' \<in> W" for pre' w' rest'
  proof (rule ccontr)
    assume "\<not> length pre \<le> length pre'"
    then have "length pre' < length pre" by simp
    with that(1) first have "matchAt m (w' @ rest') = None" by blast
    then have "m ([], w' @ rest') = []" by (simp add: matchAt_None_iff)
    with assms(1) [of "w' @ rest'"] that show False by blast
  qed
  with t matchAt_Some_mem [OF at] show ?thesis by blast
qed

lemma nonempty_iff: "xs \<noteq> [] \<longleftrightarrow> (\<exists>r. r \<in> set xs)"
  by (cases xs) auto

lemma dateRegex_nonempty: "dateRegex ([], t) \<noteq> [] \<longleftrightarrow> (\<exists>w\<in>DATE. \<exists>rest. t = w @ rest)"
proof
  assume "dateRegex ([], t) \<noteq> []"
  then obtain r where "r \<in> set (dateRegex ([], t))" unfolding nonempty_iff by blast
  then show "\<exists>w\<in>DATE. \<exists>rest. t = w @ rest" unfolding dateRegex_iff by blast
next
  assume "\<exists>w\<in>DATE. \<exists>rest. t = w @ rest"
  then obtain w rest where "w \<in> DATE" "t = w @ rest" by blast
  then have "([w], rest) \<in> set (dateRegex ([], t))" unfolding dateRegex_iff by simp
  then show "dateRegex ([], t) \<noteq> []" by auto
qed

lemma totalRegex_nonempty:
  "totalRegex ([], t) \<noteq> [] \<longleftrightarrow> (\<exists>w\<in>LABELLED. \<exists>rest. t = w @ rest)"
proof
  assume "totalRegex ([], t) \<noteq> []"
  then obtain r where "r \<in> set (totalRegex ([], t))" unfolding nonempty_iff by blast
  then obtain u w where "u \<in> LABEL_PREFIX" "w \<in> DECIMAL" "t = u @ w @ snd r"
    unfolding totalRegex_iff by blast
  then have "u @ w \<in> LABELLED" "t = (u @ w) @ snd r"
    unfolding LABELLED_def conc_def by auto
  then show "\<exists>w\<in>LABELLED. \<exists>rest. t = w @ rest" by blast
next
  assume "\<exists>w\<in>LABELLED. \<exists>rest. t = w @ rest"
  then obtain u w rest where "u \<in> LABEL_PREFIX" "w \<in> DECIMAL" "t = (u @ w) @ rest"
    unfolding LABELLED_def conc_def by blast
  then have "([w], rest) \<in> set (totalRegex ([], t))" unfolding totalRegex_iff by auto
  then show "totalRegex ([], t) \<noteq> []" by auto
qed

lemma amountRegex_nonempty:
  "amountRegex ([], t) \<noteq> [] \<longleftrightarrow> (\<exists>w\<in>DOLLAR_AMOUNT. \<exists>rest. t = w @ rest)"
proof
  assume "amountRegex ([], t) \<noteq> []"
  then obtain r where "r \<in> set (amountRegex ([], t))" unfolding nonempty_iff by blast
  then obtain w where "w \<in> DECIMAL" "t = CHR ''$'' # w @ snd r"
    unfolding amountRegex_iff by blast
  then have "''$'' @ w \<in> DOLLAR_AMOUNT" "t = (''$'' @ w) @ snd r"
    unfolding DOLLAR_AMOUNT_def conc_def by auto
  then show "\<exists>w\<in>DOLLAR_AMOUNT. \<exists>rest. t = w @ rest" by blast
next
  assume "\<exists>w\<in>DOLLAR_AMOUNT. \<exists>rest. t = w @ rest"
  then obtain w rest where "w \<in> DECIMAL" "t = (''$'' @ w) @ rest"
    unfolding DOLLAR_AMOUNT_def conc_def by blast
  then have "([w], rest) \<in> set (amountRegex ([], t))" unfolding amountRegex_iff by auto
  then show "amountRegex ([], t) \<noteq> []" by auto
qed

lemma date_search_None: "search dateRegex text = None \<longleftrightarrow> \<not> occurs DATE text"
  by (rule search_None_occurs [OF dateRegex_nonempty])

lemma date_search_Some:
  assumes "search dateRegex text = Some (caps, rest)"
  shows "\<exists>pre w. caps = [w] \<and> firstOccurrence DATE text pre w rest"
proof -
  from search_Some_leftmost [of dateRegex DATE, OF dateRegex_nonempty assms]
  obtain pre t where t: "text = pre @ t" and r: "(caps, rest) \<in> set (dateRegex ([], t))"
    and first: "\<forall>pre' w' rest'. text = pre' @ w' @ rest' \<and> w' \<in> DATE \<longrightarrow> length pre \<le> length pre'"
    by blast
  from r obtain w where "w \<in> DATE" "t = w @ rest" "caps = [w]"
    unfolding dateRegex_iff by auto
  with t first show ?thesis unfolding firstOccurrence_def by blast
qed

lemma total_search_None: "search totalRegex text = None \<longleftrightarrow> \<not> occurs LABELLED text"
  by (rule search_None_occurs [OF totalRegex_nonempty])

lemma total_search_Some:
  assumes "search totalRegex text = Some (caps, rest)"
  shows "\<exists>pre u w. caps = [w] \<and> u \<in> LABEL_PREFIX \<and> w \<in> DECIMAL \<and>
           firstOccurrence LABELLED text pre (u @ w) rest"
proof -
  from search_Some_leftmost [of totalRegex LABELLED, OF totalRegex_nonempty assms]
  obtain pre t where t: "text = pre @ t" and r: "(caps, rest) \<in> set (totalRegex ([], t))"
    and first: "\<forall>pre' w' rest'. text = pre' @ w' @ rest' \<and> w' \<in> LABELLED \<longrightarrow> length pre \<le> length pre'"
    by blast
  from r obtain u w where uw: "u \<in> LABEL_PREFIX" "w \<in> DECIMAL" "t = u @ w @ rest" "caps = [w]"
    unfolding totalRegex_iff by auto
  then have "u @ w \<in> LABELLED" unfolding LABELLED_def conc_def by blast
  with t first uw show ?thesis unfolding firstOccurrence_def by auto
qed

lemma amount_search_None: "search amountRegex text = None \<longleftrightarrow> \<not> occurs DOLLAR_AMOUNT text"
  by (rule search_None_occurs [OF amountRegex_nonempty])

lemma execAll_Nil_iff: "execAll text = [] \<longleftrightarrow> \<not> occurs DOLLAR_AMOUNT text"
proof -
  have "execAll text = [] \<longleftrightarrow> search amountRegex text = None"
    by (subst execAll.simps) (auto split: option.splits)
  then show ?thesis by (simp add: amount_search_None)
qed


section \<open>The greatest dollar amount\<close>

lemma digitVal_nonneg: "0 \<le> digitVal c"
proof (cases "map_of (zip ''0123456789'' [0, 1, 2, 3, 4, 5, 6, 7, 8, 9 :: int]) c")
  case None
  then show ?thesis by (simp add: digitVal_def)
next
  case (Some d)
  then have "d \<in> set [0, 1, 2, 3, 4, 5, 6, 7, 8, 9 :: int]"
    by (meson map_of_SomeD set_zip_rightD)
  then have "0 \<le> d" by auto
  with Some show ?thesis by (simp add: digitVal_def)
qed

lemma foldl_digits:
  "foldl (\<lambda>acc c. 10 * acc + digitVal c) a y = a * 10 ^ length y + foldl (\<lambda>acc c. 10 * acc + digitVal c) 0 y"
proof (induction y arbitrary: a)
  case Nil
  show ?case by simp
next
  case (Cons c y)
  have "foldl (\<lambda>acc c. 10 * acc + digitVal c) a (c # y)
          = foldl (\<lambda>acc c. 10 * acc + digitVal c) (10 * a + digitVal c) y" by simp
  also have "\<dots> = (10 * a + digitVal c) * 10 ^ length y
                      + foldl (\<lambda>acc c. 10 * acc + digitVal c) 0 y"
    by (rule Cons.IH)
  also have "foldl (\<lambda>acc c. 10 * acc + digitVal c) 0 (c # y)
          = digitVal c * 10 ^ length y + foldl (\<lambda>acc c. 10 * acc + digitVal c) 0 y"
    using Cons.IH [of "digitVal c"] by simp
  ultimately show ?case by (simp add: algebra_simps)
qed

lemma digitsVal_append: "digitsVal (x @ y) = digitsVal x * 10 ^ length y + digitsVal y"
  unfolding digitsVal_def by (simp add: foldl_digits [of "foldl _ _ x"])

lemma digitsVal_nonneg: "0 \<le> digitsVal x"
proof (induction x rule: rev_induct)
  case Nil
  show ?case by (simp add: digitsVal_def)
next
  case (snoc c x)
  have "digitsVal (x @ [c]) = digitsVal x * 10 + digitVal c"
    by (simp add: digitsVal_def)
  with snoc digitVal_nonneg [of c] show ?case by simp
qed


lemma not_digit_dot: "\<not> isDigit CHR ''.''"
  by (simp add: isDigit_def)

lemma DECIMAL_cases:
  assumes "w \<in> DECIMAL"
  shows "(w \<noteq> [] \<and> (\<forall>c\<in>set w. isDigit c))
       \<or> (\<exists>a b. w = a @ CHR ''.'' # b \<and> a \<noteq> [] \<and> (\<forall>c\<in>set a. isDigit c) \<and> (\<forall>c\<in>set b. isDigit c))"
proof -
  from assms obtain a d b where w: "w = a @ d @ b" and a: "a \<in> charsFrom isDigit 1"
    and d: "d \<in> chars (lit CHR ''.'') 0 1" and b: "b \<in> charsFrom isDigit 0"
    unfolding DECIMAL_def conc_def by blast
  from a have a': "a \<noteq> []" "\<forall>c\<in>set a. isDigit c" by (auto simp: charsFrom_def)
  from b have b': "\<forall>c\<in>set b. isDigit c" by (auto simp: charsFrom_def)
  from d have "d = [] \<or> d = ''.''"
    by (cases d) (auto simp: chars_def lit_def)
  then show ?thesis
  proof
    assume "d = []"
    with w a' b' show ?thesis by auto
  next
    assume "d = ''.''"
    with w a' b' show ?thesis by auto
  qed
qed

lemma parseFloat_digits:
  assumes "w \<noteq> []" "\<forall>c\<in>set w. isDigit c"
  shows "parseFloat (w @ r) =
           Num (of_int (digitsVal (w @ takeWhile isDigit r @
                  (case dropWhile isDigit r of [] \<Rightarrow> []
                   | c # r' \<Rightarrow> if c = CHR ''.'' then takeWhile isDigit r' else [])))
                / 10 ^ length (case dropWhile isDigit r of [] \<Rightarrow> []
                   | c # r' \<Rightarrow> if c = CHR ''.'' then takeWhile isDigit r' else []))"
proof -
  have "takeWhile isDigit (w @ r) = w @ takeWhile isDigit r"
    "dropWhile isDigit (w @ r) = dropWhile isDigit r"
    using assms(2) by simp_all
  with assms(1) show ?thesis by (simp add: parseFloat_def Let_def)
qed

lemma parseFloat_dotted:
  assumes "a \<noteq> []" "\<forall>c\<in>set a. isDigit c" "\<forall>c\<in>set b. isDigit c"
  shows "parseFloat (a @ CHR ''.'' # b @ r) =
           Num (of_int (digitsVal (a @ b @ takeWhile isDigit r))
                / 10 ^ length (b @ takeWhile isDigit r))"
proof -
  have "takeWhile isDigit (a @ CHR ''.'' # b @ r) = a"
    "dropWhile isDigit (a @ CHR ''.'' # b @ r) = CHR ''.'' # b @ r"
    using assms(2) not_digit_dot by simp_all
  moreover have "takeWhile isDigit (b @ r) = b @ takeWhile isDigit r"
    using assms(3) by simp
  ultimately show ?thesis using assms(1) by (simp add: parseFloat_def Let_def)
qed

text \<open>Reading on after a decimal never lowers the number read.\<close>

lemma parseFloat_prefix_le:
  assumes "w \<in> DECIMAL"
  shows "\<exists>v x. parseFloat w = Num v \<and> parseFloat (w @ r) = Num x \<and> v \<le> x"
  using DECIMAL_cases [OF assms]
proof (elim disjE exE conjE)
  assume w: "w \<noteq> []" "\<forall>c\<in>set w. isDigit c"
  define e where "e = takeWhile isDigit r"
  define fp where "fp = (case dropWhile isDigit r of [] \<Rightarrow> []
                   | c # r' \<Rightarrow> if c = CHR ''.'' then takeWhile isDigit r' else [])"
  have full: "parseFloat (w @ r) = Num (of_int (digitsVal (w @ e @ fp)) / 10 ^ length fp)"
    unfolding e_def fp_def by (rule parseFloat_digits [OF w])
  have "parseFloat (w @ []) = Num (of_int (digitsVal (w @ [] @ [])) / 10 ^ length ([] :: string))"
    using parseFloat_digits [OF w, of "[]"] by simp
  then have short: "parseFloat w = Num (of_int (digitsVal w))" by simp
  have "digitsVal w * 10 ^ length fp \<le> digitsVal (w @ e) * 10 ^ length fp"
  proof -
    have "digitsVal w * 1 \<le> digitsVal w * 10 ^ length e"
      by (rule mult_left_mono) (simp_all add: digitsVal_nonneg)
    also have "\<dots> \<le> digitsVal (w @ e)"
      using digitsVal_nonneg [of e] by (simp add: digitsVal_append)
    finally show ?thesis by (simp add: mult_right_mono)
  qed
  also have "\<dots> \<le> digitsVal (w @ e @ fp)"
    using digitsVal_append [of "w @ e" fp] digitsVal_nonneg [of fp] by simp
  finally have "digitsVal w * 10 ^ length fp \<le> digitsVal (w @ e @ fp)" .
  then have "(of_int (digitsVal w * 10 ^ length fp) :: rat) \<le> of_int (digitsVal (w @ e @ fp))"
    by (simp only: of_int_le_iff)
  then have "(of_int (digitsVal w) :: rat) \<le> of_int (digitsVal (w @ e @ fp)) / 10 ^ length fp"
    by (simp add: pos_le_divide_eq)
  with short full show ?thesis by blast
next
  fix a b
  assume w: "w = a @ CHR ''.'' # b" and a: "a \<noteq> []" "\<forall>c\<in>set a. isDigit c"
    and b: "\<forall>c\<in>set b. isDigit c"
  define e where "e = takeWhile isDigit r"
  have full: "parseFloat (w @ r) = Num (of_int (digitsVal (a @ b @ e)) / 10 ^ length (b @ e))"
    unfolding e_def w using parseFloat_dotted [OF a b, of r] by simp
  have short: "parseFloat w = Num (of_int (digitsVal (a @ b)) / 10 ^ length b)"
    unfolding w using parseFloat_dotted [OF a b, of "[]"] by simp
  have "digitsVal (a @ b) * 10 ^ length e \<le> digitsVal (a @ b @ e)"
    using digitsVal_append [of "a @ b" e] digitsVal_nonneg [of e] by simp
  then have "(of_int (digitsVal (a @ b) * 10 ^ length e) :: rat) \<le> of_int (digitsVal (a @ b @ e))"
    by (simp only: of_int_le_iff)
  then have "(of_int (digitsVal (a @ b)) :: rat) / 10 ^ length b
               \<le> of_int (digitsVal (a @ b @ e)) / 10 ^ length (b @ e)"
    by (simp add: field_simps power_add)
  with short full show ?thesis by blast
qed


lemma takeWhile_stop:
  "\<not> P x \<Longrightarrow> takeWhile P (takeWhile P t @ x # ys) = takeWhile P t"
  "\<not> P x \<Longrightarrow> dropWhile P (takeWhile P t @ x # ys) = x # ys"
  by (induction t) auto

lemma munch_all: "dropWhile isDigit s = [] \<Longrightarrow> munch s = s"
proof -
  assume d: "dropWhile isDigit s = []"
  have "takeWhile isDigit s @ dropWhile isDigit s = s" by simp
  with d have "takeWhile isDigit s = s" by simp
  then show ?thesis unfolding munch_def d by simp
qed

lemma munch_dot:
  "dropWhile isDigit s = CHR ''.'' # r \<Longrightarrow>
   munch s = takeWhile isDigit s @ CHR ''.'' # takeWhile isDigit r"
  unfolding munch_def by simp

lemma munch_other:
  "dropWhile isDigit s = x # r \<Longrightarrow> x \<noteq> CHR ''.'' \<Longrightarrow> munch s = takeWhile isDigit s"
  unfolding munch_def by simp

lemma munch_split:
  "s = munch s @
       (case dropWhile isDigit s of
          [] \<Rightarrow> []
        | x # r \<Rightarrow> if x = CHR ''.'' then dropWhile isDigit r else x # r)"
proof (cases "dropWhile isDigit s")
  case Nil
  show ?thesis unfolding Nil using munch_all [OF Nil] by simp
next
  case (Cons x r)
  have s: "s = takeWhile isDigit s @ x # r" using Cons by (metis takeWhile_dropWhile_id)
  show ?thesis
  proof (cases "x = CHR ''.''")
    case True
    have "s = takeWhile isDigit s @ x # (takeWhile isDigit r @ dropWhile isDigit r)"
      using s by simp
    then show ?thesis using Cons True by (simp add: munch_dot)
  next
    case False
    then show ?thesis using Cons s by (simp add: munch_other)
  qed
qed

lemma munch_rest:
  "drop (length (munch s)) s =
     (case dropWhile isDigit s of
        [] \<Rightarrow> []
      | x # r \<Rightarrow> if x = CHR ''.'' then dropWhile isDigit r else x # r)"
proof -
  define rest where "rest = (case dropWhile isDigit s of
        [] \<Rightarrow> []
      | x # r \<Rightarrow> if x = CHR ''.'' then dropWhile isDigit r else x # r)"
  have "s = munch s @ rest" unfolding rest_def by (rule munch_split)
  then have "drop (length (munch s)) s = drop (length (munch s)) (munch s @ rest)" by simp
  then show ?thesis unfolding rest_def [symmetric] by simp
qed

lemma munch_take: "take (length s - length (drop (length (munch s)) s)) s = munch s"
proof -
  define rest where "rest = drop (length (munch s)) s"
  have s: "s = munch s @ rest"
    unfolding rest_def munch_rest by (rule munch_split)
  have "length s - length rest = length (munch s)"
    using arg_cong [OF s, of length] by simp
  moreover have "take (length (munch s)) s = munch s"
    using arg_cong [OF s, of "take (length (munch s))"] by simp
  ultimately show ?thesis unfolding rest_def by simp
qed

lemma parseFloat_munch: "parseFloat (munch t) = parseFloat t"
proof (cases "dropWhile isDigit t")
  case Nil
  show ?thesis by (simp only: munch_all [OF Nil])
next
  case (Cons x r)
  have nd: "\<not> isDigit x" using Cons by (metis dropWhile_eq_Cons_conv)
  show ?thesis
  proof (cases "x = CHR ''.''")
    case True
    have m: "munch t = takeWhile isDigit t @ CHR ''.'' # takeWhile isDigit r"
      using Cons True by (simp add: munch_dot)
    have a: "takeWhile isDigit (munch t) = takeWhile isDigit t"
      and b: "dropWhile isDigit (munch t) = CHR ''.'' # takeWhile isDigit r"
      unfolding m by (simp_all add: takeWhile_stop not_digit_dot)
    show ?thesis unfolding parseFloat_def a b Cons using True by simp
  next
    case False
    have m: "munch t = takeWhile isDigit t" using Cons False by (simp add: munch_other)
    have a: "takeWhile isDigit (munch t) = takeWhile isDigit t"
      and b: "dropWhile isDigit (munch t) = []"
      unfolding m by (auto dest: set_takeWhileD)
    show ?thesis unfolding parseFloat_def a b Cons using False by simp
  qed
qed

lemma greedyRests_hd: "\<exists>zs. greedyRests P s = dropWhile P s # zs"
  by (induction s) auto

lemma andThen_Cons: "m st = x # xs \<Longrightarrow> n x = y # ys \<Longrightarrow> \<exists>zs. andThen m n st = y # zs"
  by (simp add: andThen_def)

lemma star_hd: "\<exists>zs. star P (c, s) = (c, dropWhile P s) # zs"
  using greedyRests_hd [of P s] by (auto simp: star_def)

lemma decimal_hd:
  assumes "isDigit d"
  shows "\<exists>zs. decimal (c, d # t) = (c, drop (length (munch (d # t))) (d # t)) # zs"
proof -
  define t1 where "t1 = dropWhile isDigit t"
  define t2 where "t2 = (case t1 of [] \<Rightarrow> [] | x # r \<Rightarrow> if x = CHR ''.'' then r else t1)"
  have dw: "dropWhile isDigit (d # t) = t1" using assms by (simp add: t1_def)
  obtain z1 where p: "plus isDigit (c, d # t) = (c, t1) # z1"
  proof -
    have "chr isDigit (c, d # t) = [(c, t)]" using assms by (simp add: chr_def)
    moreover obtain zs where "star isDigit (c, t) = (c, t1) # zs"
      unfolding t1_def using star_hd by blast
    ultimately have "\<exists>zs. plus isDigit (c, d # t) = (c, t1) # zs"
      unfolding plus_def by (rule andThen_Cons)
    then show ?thesis using that by blast
  qed
  have "\<exists>z2. opt (chr (lit CHR ''.'')) (c, t1) = (c, t2) # z2"
  proof (cases t1)
    case Nil
    then show ?thesis by (simp add: opt_def chr_def t2_def)
  next
    case (Cons x r)
    then show ?thesis by (cases "x = CHR ''.''") (simp_all add: opt_def chr_def lit_def t2_def)
  qed
  then obtain z2 where o: "opt (chr (lit CHR ''.'')) (c, t1) = (c, t2) # z2" by blast
  obtain z3 where s: "star isDigit (c, t2) = (c, dropWhile isDigit t2) # z3"
    using star_hd by blast
  have rest: "drop (length (munch (d # t))) (d # t) = dropWhile isDigit t2"
  proof (cases t1)
    case Nil
    then show ?thesis unfolding munch_rest dw by (simp add: t2_def)
  next
    case (Cons x r')
    have nd: "\<not> isDigit x" using Cons t1_def by (metis dropWhile_eq_Cons_conv)
    show ?thesis
    proof (cases "x = CHR ''.''")
      case True
      then show ?thesis unfolding munch_rest dw using Cons by (simp add: t2_def)
    next
      case False
      then show ?thesis unfolding munch_rest dw using Cons nd by (simp add: t2_def)
    qed
  qed
  have "\<exists>zs. andThen (star isDigit) (seqs []) (c, t2) = (c, dropWhile isDigit t2) # zs"
    using s by (intro andThen_Cons [where x = "(c, dropWhile isDigit t2)"]) auto
  then obtain z4 where a3: "andThen (star isDigit) (seqs []) (c, t2) = (c, dropWhile isDigit t2) # z4"
    by blast
  have "\<exists>zs. andThen (opt (chr (lit CHR ''.''))) (andThen (star isDigit) (seqs [])) (c, t1)
           = (c, dropWhile isDigit t2) # zs"
    using o a3 by (rule andThen_Cons)
  then obtain z5 where a2: "andThen (opt (chr (lit CHR ''.''))) (andThen (star isDigit) (seqs [])) (c, t1)
           = (c, dropWhile isDigit t2) # z5" by blast
  have "\<exists>zs. andThen (plus isDigit) (andThen (opt (chr (lit CHR ''.''))) (andThen (star isDigit) (seqs []))) (c, d # t)
           = (c, dropWhile isDigit t2) # zs"
    using p a2 by (rule andThen_Cons)
  then show ?thesis unfolding decimal_def rest by simp
qed

lemma DECIMAL_digits: "w \<noteq> [] \<Longrightarrow> \<forall>c\<in>set w. isDigit c \<Longrightarrow> w \<in> DECIMAL"
proof -
  assume w: "w \<noteq> []" "\<forall>c\<in>set w. isDigit c"
  have "w \<in> charsFrom isDigit 1" using w by (cases w) (auto simp: charsFrom_def)
  moreover have "[] \<in> conc (chars (lit CHR ''.'') 0 1) (charsFrom isDigit 0)"
    by (auto simp: conc_def chars_def charsFrom_def)
  ultimately have "w @ [] \<in> DECIMAL" unfolding DECIMAL_def conc_def [of "charsFrom isDigit 1"]
    by blast
  then show ?thesis by simp
qed

lemma DECIMAL_dotted:
  assumes "a \<noteq> []" "\<forall>c\<in>set a. isDigit c" "\<forall>c\<in>set b. isDigit c"
  shows "a @ CHR ''.'' # b \<in> DECIMAL"
proof -
  have "a \<in> charsFrom isDigit 1" using assms by (cases a) (auto simp: charsFrom_def)
  moreover have "[CHR ''.''] \<in> chars (lit CHR ''.'') 0 1" by (simp add: chars_def lit_def)
  moreover have "b \<in> charsFrom isDigit 0" using assms by (simp add: charsFrom_def)
  ultimately have "a @ ([CHR ''.''] @ b) \<in> DECIMAL"
    unfolding DECIMAL_def conc_def by blast
  then show ?thesis by simp
qed

lemma DECIMAL_hd:
  assumes "w \<in> DECIMAL"
  shows "\<exists>d t. w = d # t \<and> isDigit d"
  using DECIMAL_cases [OF assms]
proof (elim disjE exE conjE)
  assume "w \<noteq> []" "\<forall>c\<in>set w. isDigit c"
  then show ?thesis by (cases w) auto
next
  fix a b
  assume "w = a @ CHR ''.'' # b" "a \<noteq> []" "\<forall>c\<in>set a. isDigit c"
  then show ?thesis by (cases a) auto
qed

lemma munch_DECIMAL:
  assumes "isDigit d"
  shows "munch (d # t) \<in> DECIMAL"
proof (cases "dropWhile isDigit (d # t)")
  case Nil
  have all: "\<forall>c\<in>set (d # t). isDigit c" using Nil by (simp only: dropWhile_eq_Nil_conv)
  show ?thesis unfolding munch_all [OF Nil] using all by (intro DECIMAL_digits) simp_all
next
  case (Cons x r)
  have tw: "takeWhile isDigit (d # t) \<noteq> []" using assms by simp
  have dg: "\<forall>c\<in>set (takeWhile isDigit s). isDigit c" for s by (auto dest: set_takeWhileD)
  show ?thesis
  proof (cases "x = CHR ''.''")
    case True
    show ?thesis unfolding munch_dot [OF Cons [unfolded True]]
      by (rule DECIMAL_dotted [OF tw dg dg])
  next
    case False
    show ?thesis unfolding munch_other [OF Cons False]
      by (rule DECIMAL_digits [OF tw dg])
  qed
qed

lemma munch_extends:
  assumes "w \<in> DECIMAL"
  shows "\<exists>r. munch (w @ rest) = w @ r"
  using DECIMAL_cases [OF assms]
proof (elim disjE exE conjE)
  assume w: "w \<noteq> []" "\<forall>c\<in>set w. isDigit c"
  have "takeWhile isDigit (w @ rest) = w @ takeWhile isDigit rest"
    using w by (simp add: takeWhile_append2)
  then show ?thesis unfolding munch_def by simp
next
  fix a b
  assume w: "w = a @ CHR ''.'' # b" "a \<noteq> []" "\<forall>c\<in>set a. isDigit c" "\<forall>c\<in>set b. isDigit c"
  have t: "takeWhile isDigit (w @ rest) = a"
    and d: "dropWhile isDigit (w @ rest) = CHR ''.'' # b @ rest"
    using w by (simp_all add: takeWhile_append2 dropWhile_append2 not_digit_dot)
  have "takeWhile isDigit (b @ rest) = b @ takeWhile isDigit rest"
    using w by (simp add: takeWhile_append2)
  then have "munch (w @ rest) = a @ CHR ''.'' # b @ takeWhile isDigit rest"
    unfolding munch_def t d by simp
  then show ?thesis using w(1) by simp
qed

lemma dollar_not_digit: "\<not> isDigit CHR ''$''"
  by (simp add: isDigit_def)

lemma dollar_munch: "CHR ''$'' \<notin> set (munch s)"
proof -
  have dg: "c \<in> set (takeWhile isDigit s) \<Longrightarrow> isDigit c" for c s by (auto dest: set_takeWhileD)
  show ?thesis
    unfolding munch_def using dollar_not_digit
    by (auto split: list.splits if_splits dest: dg)
qed

lemma beyond_prefix:
  "m @ r0 = p @ x # z \<Longrightarrow> x \<notin> set m \<Longrightarrow> \<exists>q. r0 = q @ x # z"
  by (auto simp: append_eq_append_conv2 append_eq_Cons_conv)

lemma execAll_Nil: "execAll [] = []"
  by (subst execAll.simps) (simp add: matchAt_def amountRegex_def andThen_def chr_def)

lemma matchAt_amount_None:
  assumes "\<not> (\<exists>d t. s = CHR ''$'' # d # t \<and> isDigit d)"
  shows "matchAt amountRegex s = None"
proof (rule ccontr)
  assume "matchAt amountRegex s \<noteq> None"
  then obtain r where "matchAt amountRegex s = Some r" by blast
  then have "r \<in> set (amountRegex ([], s))" by (rule matchAt_Some_mem)
  then obtain w where w: "w \<in> DECIMAL" "s = CHR ''$'' # w @ snd r"
    unfolding amountRegex_iff by blast
  from DECIMAL_hd [OF w(1)] obtain d t where "w = d # t" "isDigit d" by blast
  with w(2) assms show False by simp
qed

lemma matchAt_amount_Some:
  assumes "isDigit d"
  shows "matchAt amountRegex (CHR ''$'' # d # t)
           = Some ([munch (d # t)], drop (length (munch (d # t))) (d # t))"
proof -
  obtain zs where z: "decimal ([], d # t) = ([], drop (length (munch (d # t))) (d # t)) # zs"
    using decimal_hd [OF assms] by blast
  have "chr (lit CHR ''$'') ([], CHR ''$'' # d # t) = [([], d # t)]"
    by (simp add: chr_def lit_def)
  moreover have "group decimal ([], d # t)
      = ([munch (d # t)], drop (length (munch (d # t))) (d # t))
        # map (\<lambda>(caps, rest). (caps @ [take (length (d # t) - length rest) (d # t)], rest)) zs"
    unfolding group_def z using munch_take [of "d # t"] by simp
  ultimately show ?thesis
    by (simp add: matchAt_def amountRegex_def andThen_def)
qed

lemma execAll_skip:
  assumes "\<not> (\<exists>d t. c # cs = CHR ''$'' # d # t \<and> isDigit d)"
  shows "execAll (c # cs) = execAll cs"
proof -
  have "search amountRegex (c # cs) = search amountRegex cs"
    using matchAt_amount_None [OF assms] by simp
  then show ?thesis by (subst execAll.simps, subst (2) execAll.simps) simp
qed

lemma execAll_dollar:
  assumes "isDigit d"
  shows "execAll (CHR ''$'' # d # t)
           = parseFloat (d # t) # execAll (drop (length (munch (d # t))) (d # t))"
proof -
  have "search amountRegex (CHR ''$'' # d # t)
          = Some ([munch (d # t)], drop (length (munch (d # t))) (d # t))"
    using matchAt_amount_Some [OF assms] by simp
  then show ?thesis
    by (subst execAll.simps) (simp add: cap_def parseFloat_munch)
qed

lemma execAll_sound:
  "x \<in> set (execAll s) \<Longrightarrow>
   \<exists>pre w rest. s = pre @ CHR ''$'' # w @ rest \<and> w \<in> DECIMAL \<and> parseFloat w = x"
proof (induction s arbitrary: x rule: length_induct)
  case (1 s)
  show ?case
  proof (cases s)
    case Nil
    with 1(2) show ?thesis by (simp add: execAll_Nil)
  next
    case (Cons c cs)
    show ?thesis
    proof (cases "\<exists>d t. c # cs = CHR ''$'' # d # t \<and> isDigit d")
      case False
      have "x \<in> set (execAll cs)" using 1(2) unfolding Cons execAll_skip [OF False] .
      moreover have "length cs < length s" using Cons by simp
      ultimately obtain pre w rest where
        "cs = pre @ CHR ''$'' # w @ rest" "w \<in> DECIMAL" "parseFloat w = x"
        using 1(1) by blast
      then have "s = (c # pre) @ CHR ''$'' # w @ rest \<and> w \<in> DECIMAL \<and> parseFloat w = x"
        using Cons by simp
      then show ?thesis by blast
    next
      case True
      then obtain d t where c: "c = CHR ''$''" "cs = d # t" and d: "isDigit d" by blast
      define m where "m = munch (d # t)"
      define r where "r = drop (length m) (d # t)"
      have split: "d # t = m @ r"
        unfolding r_def m_def munch_rest by (rule munch_split)
      have ex: "execAll s = parseFloat (d # t) # execAll r"
        unfolding Cons c r_def m_def by (rule execAll_dollar [OF d])
      from 1(2) ex consider "x = parseFloat (d # t)" | "x \<in> set (execAll r)" by auto
      then show ?thesis
      proof cases
        case 1
        have "s = [] @ CHR ''$'' # m @ r" using Cons c split by simp
        moreover have "m \<in> DECIMAL" unfolding m_def by (rule munch_DECIMAL [OF d])
        moreover have "parseFloat m = x" unfolding m_def 1 by (rule parseFloat_munch)
        ultimately show ?thesis by blast
      next
        case 2
        have "length r < length s" using Cons c arg_cong [OF split, of length] by simp
        with 2 obtain pre w rest where
          "r = pre @ CHR ''$'' # w @ rest" "w \<in> DECIMAL" "parseFloat w = x"
          using "1.IH" by blast
        then have "s = (CHR ''$'' # m @ pre) @ CHR ''$'' # w @ rest \<and> w \<in> DECIMAL \<and> parseFloat w = x"
          using Cons c split by simp
        then show ?thesis by blast
      qed
    qed
  qed
qed

lemma execAll_dominates:
  "s = pre @ CHR ''$'' # w @ rest \<Longrightarrow> w \<in> DECIMAL \<Longrightarrow>
   \<exists>v x. parseFloat w = Num v \<and> Num x \<in> set (execAll s) \<and> v \<le> x"
proof (induction s arbitrary: pre rule: length_induct)
  case (1 s)
  note occ = 1(2) and w = 1(3)
  have "s \<noteq> []" using occ by simp
  then obtain c cs where Cons: "s = c # cs" by (cases s) simp_all
  show ?case
  proof (cases "\<exists>d t. c # cs = CHR ''$'' # d # t \<and> isDigit d")
    case False
    have "pre \<noteq> []"
    proof
      assume "pre = []"
      then have "c = CHR ''$''" "cs = w @ rest" using occ Cons by simp_all
      moreover obtain d t where "w = d # t" "isDigit d" using DECIMAL_hd [OF w] by blast
      ultimately show False using False by simp
    qed
    then obtain pre' where pre: "pre = c # pre'" "cs = pre' @ CHR ''$'' # w @ rest"
      using occ Cons by (cases pre) auto
    have "length cs < length s" using Cons by simp
    then obtain v x where "parseFloat w = Num v" "Num x \<in> set (execAll cs)" "v \<le> x"
      using "1.IH" pre(2) w by blast
    moreover have "execAll s = execAll cs" unfolding Cons by (rule execAll_skip [OF False])
    ultimately show ?thesis by auto
  next
    case True
    then obtain d t where c: "c = CHR ''$''" "cs = d # t" and d: "isDigit d" by blast
    define m where "m = munch (d # t)"
    define r where "r = drop (length m) (d # t)"
    have split: "d # t = m @ r"
      unfolding r_def m_def munch_rest by (rule munch_split)
    have ex: "execAll s = parseFloat (d # t) # execAll r"
      unfolding Cons c r_def m_def by (rule execAll_dollar [OF d])
    show ?thesis
    proof (cases pre)
      case Nil
      then have dt: "d # t = w @ rest" using occ Cons c by simp
      obtain v y where "parseFloat w = Num v" "parseFloat (w @ rest) = Num y" "v \<le> y"
        using parseFloat_prefix_le [OF w, of rest] by blast
      then show ?thesis using ex dt by auto
    next
      case (Cons p pre')
      then have mr: "m @ r = pre' @ CHR ''$'' # w @ rest"
        using occ \<open>s = c # cs\<close> c split by simp
      have nm: "CHR ''$'' \<notin> set m" unfolding m_def by (rule dollar_munch)
      obtain q where q: "r = q @ CHR ''$'' # w @ rest"
        using beyond_prefix [OF mr nm] by (rule exE)
      have "length r < length s"
        using \<open>s = c # cs\<close> c arg_cong [OF split, of length] by simp
      then obtain v x where "parseFloat w = Num v" "Num x \<in> set (execAll r)" "v \<le> x"
        using "1.IH" q w by blast
      then show ?thesis using ex by auto
    qed
  qed
qed

lemma amountValues_iff:
  "v \<in> amountValues text \<longleftrightarrow>
     (\<exists>pre w rest. text = pre @ CHR ''$'' # w @ rest \<and> w \<in> DECIMAL \<and> parseFloat w = Num v)"
  by (simp add: amountValues_def)

lemma execAll_amountValues: "Num v \<in> set (execAll text) \<Longrightarrow> v \<in> amountValues text"
  unfolding amountValues_iff by (rule execAll_sound)

lemma amountValues_dominated:
  assumes "u \<in> amountValues text"
  shows "\<exists>x. Num x \<in> set (execAll text) \<and> u \<le> x"
proof -
  obtain pre w rest where t: "text = pre @ CHR ''$'' # w @ rest" and w: "w \<in> DECIMAL"
    and u: "parseFloat w = Num u"
    using assms unfolding amountValues_iff by blast
  obtain v x where "parseFloat w = Num v" "Num x \<in> set (execAll text)" "v \<le> x"
    using execAll_dominates [OF t w] by blast
  with u show ?thesis by auto
qed

lemma fallback_total_greatest:
  assumes "search totalRegex text = None"
  shows "if amountValues text = {} then totalAmount (parseReceiptText nd text) = None
         else \<exists>v\<in>amountValues text. (\<forall>u\<in>amountValues text. u \<le> v)
                \<and> totalAmount (parseReceiptText nd text) = Some (Num v)"
proof -
  obtain vs where e: "execAll text = map Num vs"
    and t: "totalAmount (parseReceiptText nd text)
              = (if vs = [] then None else Some (Num (Max (set vs))))"
    using totalAmount_cases [of "text" nd] unfolding assms by auto
  have sound: "x \<in> amountValues text" if "x \<in> set vs" for x
    using that e by (intro execAll_amountValues) simp
  have dom: "\<exists>x\<in>set vs. u \<le> x" if "u \<in> amountValues text" for u
    using amountValues_dominated [OF that] unfolding e by auto
  show ?thesis
  proof (cases "vs = []")
    case True
    have "amountValues text = {}" using dom True by auto
    with t True show ?thesis by simp
  next
    case False
    then have m: "Max (set vs) \<in> set vs" by (intro Max_in) simp_all
    have "u \<le> Max (set vs)" if h: "u \<in> amountValues text" for u
    proof -
      obtain x where x: "x \<in> set vs" "u \<le> x" using dom [OF h] by blast
      have "x \<le> Max (set vs)" using x(1) by (intro Max_ge) simp_all
      with x(2) show ?thesis by (rule order_trans)
    qed
    moreover have "Max (set vs) \<in> amountValues text" by (rule sound [OF m])
    moreover have "amountValues text \<noteq> {}" using sound [OF m] by blast
    ultimately show ?thesis using t False by auto
  qed
qed


section \<open>The parse the engine settles on\<close>
















































section \<open>Claims about the receipt field parser\<close>

text \<open>
  C5. Every text is the text of a list of lines, and for every such list the merchant
  name is the first of the first three normalized lines (the lines that are not blank,
  stripped of the white space at their ends) that has no digit, contains neither
  \<open>receipt\<close> nor \<open>tax\<close> in any letter case and is longer than three characters; it is
  absent when none of these three lines qualifies.
\<close>

theorem merchant_name_first_candidate:
  "(\<exists>ls. ls \<noteq> [] \<and> (\<forall>l\<in>set ls. CHR 0x0A \<notin> set l) \<and> text = linesText ls)
   \<and> (\<forall>ls. ls \<noteq> [] \<and> (\<forall>l\<in>set ls. CHR 0x0A \<notin> set l) \<longrightarrow>
         merchantName (parseReceiptText nd (linesText ls))
           = find merchantCandidate (take 3 (map strip (filter (\<lambda>l. \<not> blank l) ls))))"
proof (intro conjI allI impI)
  have "split (CHR 0x0A) text \<noteq> []" by (rule split_nonempty)
  moreover have "\<forall>l\<in>set (split (CHR 0x0A) text). CHR 0x0A \<notin> set l"
    using split_free by blast
  moreover have "text = linesText (split (CHR 0x0A) text)" by (simp only: linesText_split)
  ultimately show "\<exists>ls. ls \<noteq> [] \<and> (\<forall>l\<in>set ls. CHR 0x0A \<notin> set l) \<and> text = linesText ls"
    by blast
next
  fix ls :: "string list"
  assume ls: "ls \<noteq> [] \<and> (\<forall>l\<in>set ls. CHR 0x0A \<notin> set l)"
  define ns where "ns = normalizedLines (linesText ls)"
  have ns: "ns = map strip (filter (\<lambda>l. \<not> blank l) ls)"
    unfolding ns_def using ls by (intro normalizedLines_linesText) simp_all
  have "merchantName (parseReceiptText nd (linesText ls)) = find merchantCandidate (take 3 ns)"
  proof (cases "ns = []")
    case True
    then show ?thesis by (simp add: parseReceiptText_def ns_def [symmetric])
  next
    case False
    have "merchantName (parseReceiptText nd (linesText ls)) = merchantLoop ns 0"
      using False by (simp add: parseReceiptText_def Let_def ns_def [symmetric])
    also have "\<dots> = find merchantCandidate (drop 0 (take 3 ns))"
      by (rule merchantLoop_find)
    finally show ?thesis by simp
  qed
  then show "merchantName (parseReceiptText nd (linesText ls))
           = find merchantCandidate (take 3 (map strip (filter (\<lambda>l. \<not> blank l) ls)))"
    unfolding ns .
qed

text \<open>
  Witness for C5. After a first line with a digit and the word \<open>receipt\<close>, the second
  line is chosen, stripped. Blank lines do not count: after three of them (empty, only
  spaces, only a tab) \<open>Corner Cafe\<close>, here between two no-break spaces, is still the
  first normalized line and is chosen, without the no-break spaces. A qualifying fourth
  normalized line is never looked at.
\<close>

theorem merchant_name_first_candidate_witness:
  "merchantName (parseReceiptText legacyDate
     (''RECEIPT #12'' @ [CHR 0x0A] @ ''  Corner Cafe  '' @ [CHR 0x0A] @ ''Tax 1.00''))
   = Some ''Corner Cafe''
   \<and> merchantName (parseReceiptText legacyDate
     ([CHR 0x0A] @ ''   '' @ [CHR 0x0A, CHR 0x09, CHR 0x0A, CHR 0xA0] @ ''Corner Cafe''
        @ [CHR 0xA0, CHR 0x0A] @ ''12 Main St''))
   = Some ''Corner Cafe''
   \<and> merchantName (parseReceiptText legacyDate
     (''12 Main St'' @ [CHR 0x0A] @ ''Tax Invoice'' @ [CHR 0x0A] @ ''abc'' @ [CHR 0x0A]
        @ ''Corner Cafe''))
   = None"
proof (intro conjI)
  let ?ls = "[''RECEIPT #12'', ''  Corner Cafe  '', ''Tax 1.00'']"
  have t: "linesText ?ls
     = ''RECEIPT #12'' @ [CHR 0x0A] @ ''  Corner Cafe  '' @ [CHR 0x0A] @ ''Tax 1.00''"
    by (simp add: linesText_def)
  have "?ls \<noteq> [] \<and> (\<forall>l\<in>set ?ls. CHR 0x0A \<notin> set l)" by simp
  moreover have "find merchantCandidate (take 3 (map strip (filter (\<lambda>l. \<not> blank l) ?ls)))
          = Some ''Corner Cafe''"
    by code_simp
  ultimately have "merchantName (parseReceiptText legacyDate (linesText ?ls))
          = Some ''Corner Cafe''"
    using merchant_name_first_candidate [of "[]" legacyDate] by simp
  then show "merchantName (parseReceiptText legacyDate
     (''RECEIPT #12'' @ [CHR 0x0A] @ ''  Corner Cafe  '' @ [CHR 0x0A] @ ''Tax 1.00''))
   = Some ''Corner Cafe''"
    unfolding t .
next
  let ?ls = "[[], ''   '', [CHR 0x09], [CHR 0xA0] @ ''Corner Cafe'' @ [CHR 0xA0],
             ''12 Main St'']"
  have t: "linesText ?ls
     = [CHR 0x0A] @ ''   '' @ [CHR 0x0A, CHR 0x09, CHR 0x0A, CHR 0xA0] @ ''Corner Cafe''
        @ [CHR 0xA0, CHR 0x0A] @ ''12 Main St''"
    by (simp add: linesText_def)
  have "?ls \<noteq> [] \<and> (\<forall>l\<in>set ?ls. CHR 0x0A \<notin> set l)" by simp
  moreover have "find merchantCandidate (take 3 (map strip (filter (\<lambda>l. \<not> blank l) ?ls)))
          = Some ''Corner Cafe''"
    by code_simp
  ultimately have "merchantName (parseReceiptText legacyDate (linesText ?ls))
          = Some ''Corner Cafe''"
    using merchant_name_first_candidate [of "[]" legacyDate] by simp
  then show "merchantName (parseReceiptText legacyDate
     ([CHR 0x0A] @ ''   '' @ [CHR 0x0A, CHR 0x09, CHR 0x0A, CHR 0xA0] @ ''Corner Cafe''
        @ [CHR 0xA0, CHR 0x0A] @ ''12 Main St''))
   = Some ''Corner Cafe''"
    unfolding t .
next
  let ?ls = "[''12 Main St'', ''Tax Invoice'', ''abc'', ''Corner Cafe'']"
  have t: "linesText ?ls
     = ''12 Main St'' @ [CHR 0x0A] @ ''Tax Invoice'' @ [CHR 0x0A] @ ''abc'' @ [CHR 0x0A]
        @ ''Corner Cafe''"
    by (simp add: linesText_def)
  have "?ls \<noteq> [] \<and> (\<forall>l\<in>set ?ls. CHR 0x0A \<notin> set l)" by simp
  moreover have "find merchantCandidate (take 3 (map strip (filter (\<lambda>l. \<not> blank l) ?ls)))
          = None"
    by code_simp
  ultimately have "merchantName (parseReceiptText legacyDate (linesText ?ls)) = None"
    using merchant_name_first_candidate [of "[]" legacyDate] by simp
  then show "merchantName (parseReceiptText legacyDate
     (''12 Main St'' @ [CHR 0x0A] @ ''Tax Invoice'' @ [CHR 0x0A] @ ''abc'' @ [CHR 0x0A]
        @ ''Corner Cafe''))
   = None"
    unfolding t .
qed

text \<open>
  C2. For every raw text: when the label pattern (\<open>total\<close>, \<open>amount\<close> or \<open>sum\<close> in any
  letter case, then colons and white space, then an optional dollar sign, then a decimal)
  occurs, the total is the number captured at its first occurrence; otherwise the total
  is the greatest of the numbers of all substrings \<open>$<decimal>\<close> of the text, and it is
  absent when there is none. In both cases the total is a proper number.
\<close>

theorem total_amount_label_then_maximum:
  "(case search totalRegex text of
      Some (caps, rest) \<Rightarrow>
        \<exists>pre u w v. caps = [w] \<and> u \<in> LABEL_PREFIX \<and> w \<in> DECIMAL
          \<and> firstOccurrence LABELLED text pre (u @ w) rest
          \<and> parseFloat w = Num v
          \<and> totalAmount (parseReceiptText nd text) = Some (Num v)
    | None \<Rightarrow>
        \<not> occurs LABELLED text
        \<and> (if amountValues text = {} then totalAmount (parseReceiptText nd text) = None
           else \<exists>v\<in>amountValues text. (\<forall>u\<in>amountValues text. u \<le> v)
                  \<and> totalAmount (parseReceiptText nd text) = Some (Num v)))"
proof (cases "search totalRegex text")
  case None
  have a: "\<not> occurs LABELLED text" using None unfolding total_search_None by assumption
  show ?thesis
    unfolding None option.case by (rule conjI [OF a fallback_total_greatest [OF None]])
next
  case (Some st)
  obtain caps rest where st: "st = (caps, rest)" by (cases st)
  have s: "search totalRegex text = Some (caps, rest)" using Some st by simp
  obtain pre u w where w: "caps = [w]" "u \<in> LABEL_PREFIX" "w \<in> DECIMAL"
      "firstOccurrence LABELLED text pre (u @ w) rest"
    using total_search_Some [OF s] by blast
  obtain v where v: "parseFloat (cap caps 0) = Num v"
      "totalAmount (parseReceiptText nd text) = Some (Num v)"
    using totalAmount_cases [of "text" nd] unfolding s by auto
  have "parseFloat w = Num v" using v(1) w(1) by (simp add: cap_def)
  with w v(2) have "\<exists>pre u w v. caps = [w] \<and> u \<in> LABEL_PREFIX \<and> w \<in> DECIMAL
          \<and> firstOccurrence LABELLED text pre (u @ w) rest
          \<and> parseFloat w = Num v
          \<and> totalAmount (parseReceiptText nd text) = Some (Num v)"
    by blast
  then show ?thesis unfolding s by (simp only: option.case prod.case)
qed

text \<open>
  Witness for C2: a text without label whose dollar amounts are 3.00, 7.50 and 12.00 has
  the total 12; a labelled total of 9.50 wins over a larger dollar amount elsewhere; a
  text without any amount has no total.
\<close>

theorem total_amount_label_then_maximum_witness:
  "totalAmount (parseReceiptText legacyDate
     (''Coffee $3.00'' @ [CHR 0x0A] @ ''Muffin $7.50'' @ [CHR 0x0A] @ ''Lunch $12.00''))
   = Some (Num 12)
   \<and> totalAmount (parseReceiptText legacyDate (''Lunch $12.00'' @ [CHR 0x0A] @ ''TOTAL: $9.50''))
   = Some (Num (19 / 2))
   \<and> totalAmount (parseReceiptText legacyDate ''Thank you'') = None"
proof (intro conjI)
  let ?t = "''Coffee $3.00'' @ [CHR 0x0A] @ ''Muffin $7.50'' @ [CHR 0x0A] @ ''Lunch $12.00''"
  have s: "search totalRegex ?t = None" by code_simp
  have e: "execAll ?t = [Num 3, Num (15 / 2), Num 12]" by code_simp
  have in12: "12 \<in> amountValues ?t"
    by (rule execAll_amountValues) (simp only: e list.set insert_iff simp_thms)
  then have ne: "amountValues ?t \<noteq> {}" by blast
  from total_amount_label_then_maximum [of ?t legacyDate]
  have "\<exists>v\<in>amountValues ?t. (\<forall>u\<in>amountValues ?t. u \<le> v)
          \<and> totalAmount (parseReceiptText legacyDate ?t) = Some (Num v)"
    by (simp only: s option.case ne if_False simp_thms)
  then obtain v where v: "v \<in> amountValues ?t" and g: "\<forall>u\<in>amountValues ?t. u \<le> v"
    and t: "totalAmount (parseReceiptText legacyDate ?t) = Some (Num v)"
    by blast
  have "12 \<le> v" using g in12 by blast
  moreover have "v \<le> 12" using amountValues_dominated [OF v] unfolding e by auto
  ultimately have "v = 12" by simp
  with t show "totalAmount (parseReceiptText legacyDate ?t) = Some (Num 12)" by simp
next
  let ?t = "''Lunch $12.00'' @ [CHR 0x0A] @ ''TOTAL: $9.50''"
  have s: "search totalRegex ?t = Some ([''9.50''], [])" by code_simp
  have p: "parseFloat ''9.50'' = Num (19 / 2)" by code_simp
  from total_amount_label_then_maximum [of ?t legacyDate]
  have "\<exists>pre u w v. [''9.50''] = [w] \<and> u \<in> LABEL_PREFIX \<and> w \<in> DECIMAL
          \<and> firstOccurrence LABELLED ?t pre (u @ w) []
          \<and> parseFloat w = Num v
          \<and> totalAmount (parseReceiptText legacyDate ?t) = Some (Num v)"
    by (simp only: s option.case prod.case)
  with p show "totalAmount (parseReceiptText legacyDate ?t) = Some (Num (19 / 2))" by auto
next
  have s: "search totalRegex ''Thank you'' = None" by code_simp
  have e: "execAll ''Thank you'' = []" by code_simp
  have "amountValues ''Thank you'' = {}"
    using amountValues_dominated [of _ "''Thank you''"] unfolding e by auto
  with total_amount_label_then_maximum [of "''Thank you''" legacyDate]
  show "totalAmount (parseReceiptText legacyDate ''Thank you'') = None"
    by (simp only: s option.case if_True simp_thms)
qed




text \<open>
  C7 as stated fails. The text \<open>02/30/2023\<close> matches the date pattern and is no calendar
  date, yet the parser does not leave the date absent: it validates nothing itself, it
  hands the match to the Date constructor, and that one carries the two days past the end
  of February over and returns 2 March 2023, a corrected date.
\<close>

theorem invalid_calendar_date_rolls_over:
  "search dateRegex ''02/30/2023'' = Some ([''02/30/2023''], [])
   \<and> date (parseReceiptText legacyDate ''02/30/2023'')
       = Some (daysFromCivil 2023 3 2 * 86400000)"
proof -
  have s: "search dateRegex ''02/30/2023'' = Some ([''02/30/2023''], [])" by code_simp
  have "legacyDate (cap [''02/30/2023''] 0) = Some (daysFromCivil 2023 3 2 * 86400000)"
    by code_simp
  with s show ?thesis by (simp add: date_first_match)
qed

text \<open>
  C7, amended. For every raw text and every Date constructor, only the first occurrence
  of the date pattern is used: the date field is what the constructor returns for that
  occurrence, absent when the pattern does not occur or when the constructor rejects the
  occurrence (Invalid Date). No later occurrence is tried, and the parser adds no calendar
  check of its own.
\<close>

theorem date_first_occurrence_only:
  "(case search dateRegex text of
      None \<Rightarrow> \<not> occurs DATE text \<and> date (parseReceiptText nd text) = None
    | Some (caps, rest) \<Rightarrow>
        \<exists>pre w. caps = [w] \<and> firstOccurrence DATE text pre w rest
          \<and> date (parseReceiptText nd text) = nd w)"
proof (cases "search dateRegex text")
  case None
  have a: "\<not> occurs DATE text" using None unfolding date_search_None by assumption
  have b: "date (parseReceiptText nd text) = None"
    unfolding date_first_match None by simp
  show ?thesis unfolding None option.case by (rule conjI [OF a b])
next
  case (Some st)
  obtain caps rest where st: "st = (caps, rest)" by (cases st)
  have s: "search dateRegex text = Some (caps, rest)" using Some st by simp
  obtain pre w where w: "caps = [w]" "firstOccurrence DATE text pre w rest"
    using date_search_Some [OF s] by blast
  have "date (parseReceiptText nd text) = nd w"
    unfolding date_first_match s using w(1) by (simp add: cap_def)
  with w have "\<exists>pre w. caps = [w] \<and> firstOccurrence DATE text pre w rest
          \<and> date (parseReceiptText nd text) = nd w"
    by blast
  then show ?thesis unfolding s by (simp only: option.case prod.case)
qed

text \<open>
  Witness for the amended C7: the first occurrence \<open>13/45/2023\<close> is rejected by the
  constructor and the date is absent, although \<open>01/15/2023\<close> follows and would be
  accepted.
\<close>

theorem date_first_occurrence_only_witness:
  "search dateRegex ''13/45/2023 or 01/15/2023''
     = Some ([''13/45/2023''], '' or 01/15/2023'')
   \<and> legacyDate ''13/45/2023'' = None
   \<and> legacyDate ''01/15/2023'' = Some (daysFromCivil 2023 1 15 * 86400000)
   \<and> date (parseReceiptText legacyDate ''13/45/2023 or 01/15/2023'') = None"
proof -
  let ?t = "''13/45/2023 or 01/15/2023''"
  have s: "search dateRegex ?t = Some ([''13/45/2023''], '' or 01/15/2023'')"
    by code_simp
  have r: "legacyDate ''13/45/2023'' = None" by code_simp
  have a: "legacyDate ''01/15/2023'' = Some (daysFromCivil 2023 1 15 * 86400000)"
    by code_simp
  from date_first_occurrence_only [of ?t legacyDate]
  have "\<exists>pre w. [''13/45/2023''] = [w] \<and> firstOccurrence DATE ?t pre w '' or 01/15/2023''
          \<and> date (parseReceiptText legacyDate ?t) = legacyDate w"
    by (simp only: s option.case prod.case)
  then have "date (parseReceiptText legacyDate ?t) = legacyDate ''13/45/2023''" by auto
  with s r a show ?thesis by simp
qed

text \<open>
  C9 as stated fails. For a text without any item line the result has no \<open>items\<close>
  member at all: the parser assigns the member only when at least one item was found.
\<close>

theorem items_absent_counterexample:
  "items (parseReceiptText legacyDate ''Thank you'') = None"
proof -
  have "parseLineItems (normalizedLines ''Thank you'') = []" by code_simp
  then show ?thesis by (simp add: items_nonempty)
qed

text \<open>
  C9, amended. For every raw text the \<open>items\<close> member is present exactly when at least
  one line item was extracted, and then holds the items in line order; when none was
  extracted the member is absent, like the other three optional members. It is never
  present as an empty sequence.
\<close>

theorem items_present_iff_extracted:
  "items (parseReceiptText nd text)
     = (if parseLineItems (normalizedLines text) = [] then None
        else Some (parseLineItems (normalizedLines text)))
   \<and> items (parseReceiptText nd text) \<noteq> Some []"
  by (simp add: items_nonempty)

text \<open>Witness for the amended C9: one item line gives a one-element \<open>items\<close> member.\<close>

theorem items_present_iff_extracted_witness:
  "items (parseReceiptText legacyDate ''Bagel 2 $3.50'')
   = Some [\<lparr>name = ''Bagel'', price = Num (7 / 2), quantity = Num 2\<rparr>]"
proof -
  have "parseLineItems (normalizedLines ''Bagel 2 $3.50'')
          = [\<lparr>name = ''Bagel'', price = Num (7 / 2), quantity = Num 2\<rparr>]"
    by code_simp
  with items_present_iff_extracted [of legacyDate "''Bagel 2 $3.50''"]
  show ?thesis by simp
qed

text \<open>
  C10 as stated fails. The text \<open>12/31/2099\<close> yields the date 31 December 2099, which is
  later than, for instance, 3 November 2026 taken as the current time.
\<close>

theorem future_date_counterexample:
  "date (parseReceiptText legacyDate ''12/31/2099'')
     = Some (daysFromCivil 2099 12 31 * 86400000)
   \<and> daysFromCivil 2026 11 3 * 86400000 < daysFromCivil 2099 12 31 * 86400000"
proof -
  have s: "search dateRegex ''12/31/2099'' = Some ([''12/31/2099''], [])" by code_simp
  have "legacyDate (cap [''12/31/2099''] 0) = Some (daysFromCivil 2099 12 31 * 86400000)"
    by code_simp
  with s have "date (parseReceiptText legacyDate ''12/31/2099'')
     = Some (daysFromCivil 2099 12 31 * 86400000)"
    by (simp add: date_first_match)
  moreover have "daysFromCivil 2026 11 3 * 86400000 < daysFromCivil 2099 12 31 * 86400000"
    by code_simp
  ultimately show ?thesis by simp
qed

text \<open>
  C10, amended. The field parser never consults the current time. Whatever time value
  the Date constructor returns for the first occurrence of the date pattern is the date
  of the result, unchanged, also when it lies after the current time; a bound on future
  dates, if wanted, has to be applied by the caller.
\<close>

theorem date_not_bounded_by_now:
  "search dateRegex text = Some (caps, rest) \<Longrightarrow> nd (cap caps 0) = Some t \<Longrightarrow> now < t
     \<Longrightarrow> date (parseReceiptText nd text) = Some t"
  by (simp add: date_first_match)

text \<open>
  Witness for the amended C10, with 3 November 2026 as the current time:
  \<open>1793664000000 < 4102358400000\<close>.
\<close>

theorem date_not_bounded_by_now_witness:
  "date (parseReceiptText legacyDate ''12/31/2099'') = Some 4102358400000"
proof -
  have s: "search dateRegex ''12/31/2099'' = Some ([''12/31/2099''], [])" by code_simp
  have d: "legacyDate (cap [''12/31/2099''] 0) = Some 4102358400000" by code_simp
  have n: "(1793664000000 :: int) < 4102358400000" by simp
  show ?thesis
    by (rule date_not_bounded_by_now
          [of "''12/31/2099''" "[''12/31/2099'']" "[]" legacyDate 4102358400000 1793664000000,
           OF s d n])
qed


section \<open>Claim about the OCR pipeline\<close>

text \<open>
  C8 fails on the code. When preprocessing has written the temporary image and the
  recognition step then fails, \<open>processReceiptOCR\<close> raises and the temporary image is
  still on the file system: the \<open>unlinkSync\<close> call sits inside the \<open>try\<close> block after the
  recognition, and the \<open>catch\<close> block only logs and rethrows. On the same input with a
  recognition that succeeds the temporary image is removed.
\<close>

theorem temp_file_left_on_ocr_failure:
  "processReceiptOCR
     \<lparr>newDate = legacyDate, processedPath = (\<lambda>p. ''uploads/processed_r1.jpg''),
      sharpToFile = (\<lambda>p. True), recognize = (\<lambda>p. None)\<rparr>
     ''uploads/r1.jpg'' {''uploads/r1.jpg''}
   = (Inl OcrProcessingFailed, {''uploads/processed_r1.jpg'', ''uploads/r1.jpg''})
   \<and> snd (processReceiptOCR
     \<lparr>newDate = legacyDate, processedPath = (\<lambda>p. ''uploads/processed_r1.jpg''),
      sharpToFile = (\<lambda>p. True), recognize = (\<lambda>p. Some (''Thank you'', 87))\<rparr>
     ''uploads/r1.jpg'' {''uploads/r1.jpg''})
   = {''uploads/r1.jpg''}"
  by (simp add: processReceiptOCR_def preprocessImage_def unlinkSync_def Let_def)

end
